theory Spec2Isabelle
  imports Complex_Main "HOL-Library.AList" "HOL-Library.Multiset"
begin

section \<open>The request queue kept by the provider\<close>

text \<open>
  Source: \<^verbatim>\<open>src/core/provider/MediaProviderElement.ts\<close>, section "Request Queue".
  The provider keeps \<^verbatim>\<open>requestQueue\<close>, a JavaScript \<^verbatim>\<open>Map\<close> from request key to
  action, and \<^verbatim>\<open>pendingRequestQueueFlush\<close>, a deferred promise.

  A JavaScript \<^verbatim>\<open>Map\<close> iterates in insertion order, \<^verbatim>\<open>set\<close> on a key that is already
  present replaces the value where it stands, and \<^verbatim>\<open>set\<close> on a new key appends. The
  model is an association list with \<open>AList.update\<close> for \<^verbatim>\<open>set\<close>, \<open>AList.delete\<close> for
  \<^verbatim>\<open>delete\<close>, \<open>map_of\<close> for \<^verbatim>\<open>get\<close> and \<open>map fst\<close> for \<^verbatim>\<open>keys()\<close>.

  An action is a closure in the source. Here it is a label of type \<open>'a\<close>, and a function
  \<open>run\<close> says how the call of each action ends: it returns, it throws, or it hands back
  a promise that is fulfilled or rejected later. Actions do not call back into the
  provider.

  \<^verbatim>\<open>safelyMakeRequest\<close> is an \<^verbatim>\<open>async\<close> function. A call of it that \<^verbatim>\<open>makeRequest\<close>
  starts is not awaited: what it does after its \<^verbatim>\<open>await\<close> happens in a later turn, and
  until then the call is kept in the field \<open>suspended\<close> of the provider; any of the
  suspended calls may be the next to resume. \<^verbatim>\<open>flushRequestQueue\<close> awaits the calls it
  starts: it is followed until all of them have resumed, in an order \<open>order\<close> that is
  a parameter, since each resumes when its own promise settles. While a flush waits,
  nothing but its own calls runs. A promise that never settles is left out: a flush
  that awaits one never resumes.
\<close>

datatype 'e outcome = Returns | Throws 'e | Resolves | Rejects 'e

text \<open>
  What the provider does that is visible from outside: the call of an action, the
  resumption of \<^verbatim>\<open>safelyMakeRequest\<close> after its \<^verbatim>\<open>await\<close>, the dispatch of a
  \<^verbatim>\<open>VdsErrorEvent\<close>, \<^verbatim>\<open>requestUpdate()\<close>, and the resolution of a deferred promise.
\<close>

datatype ('k, 'a, 'e) event =
    Invoke 'k 'a
  | Awaited 'k
  | ErrorEvent 'e
  | RequestUpdate
  | FlushResolved nat

text \<open>
  Deferred promises are numbered in the order \<^verbatim>\<open>deferredPromise()\<close> creates them;
  \<open>resolved\<close> holds the ones whose \<^verbatim>\<open>resolve()\<close> has been called. \<open>canPlay\<close> and
  \<open>context_error\<close> are \<^verbatim>\<open>this.context.canPlay\<close> and \<^verbatim>\<open>this.context.error\<close>.
  \<open>suspended\<close> holds the calls of \<^verbatim>\<open>safelyMakeRequest\<close> made by \<^verbatim>\<open>makeRequest\<close> that
  have not resumed yet, each with its key and the rejection it will see, if any.
\<close>

record ('k, 'a, 'e) provider =
  requestQueue :: "('k \<times> 'a) list"
  pendingRequestQueueFlush :: nat
  deferredCount :: nat
  resolved :: "nat set"
  canPlay :: bool
  context_error :: "'e option"
  suspended :: "('k \<times> 'e option) list"
  trace :: "('k, 'a, 'e) event list"

definition newProvider :: "('k, 'a, 'e) provider" where
  "newProvider =
     \<lparr> requestQueue = [], pendingRequestQueueFlush = 0, deferredCount = 1,
       resolved = {}, canPlay = False, context_error = None, suspended = [], trace = [] \<rparr>"

text \<open>The \<^verbatim>\<open>catch\<close> block of \<^verbatim>\<open>safelyMakeRequest\<close>.\<close>

definition catchError :: "'e \<Rightarrow> ('k, 'a, 'e) provider \<Rightarrow> ('k, 'a, 'e) provider" where
  "catchError e s = s\<lparr> context_error := Some e, trace := trace s @ [ErrorEvent e] \<rparr>"

text \<open>The two statements after the \<^verbatim>\<open>try\<close> of \<^verbatim>\<open>safelyMakeRequest\<close>.\<close>

definition finishRequest :: "'k \<Rightarrow> ('k, 'a, 'e) provider \<Rightarrow> ('k, 'a, 'e) provider" where
  "finishRequest k s =
     s\<lparr> requestQueue := AList.delete k (requestQueue s), trace := trace s @ [RequestUpdate] \<rparr>"

text \<open>
  \<^verbatim>\<open>safelyMakeRequest\<close> is an \<^verbatim>\<open>async\<close> function: it runs in the caller's turn up to
  its \<^verbatim>\<open>await\<close>. The action is called in that first part. When the call throws, the
  \<^verbatim>\<open>catch\<close> block and the rest of the body run at once and nothing is left suspended
  (\<open>None\<close>). Otherwise the function is suspended on the awaited value, \<open>Some (k, r)\<close>,
  where \<open>r\<close> is the rejection it will see, if any. A key with no entry awaits
  \<^verbatim>\<open>undefined\<close>.
\<close>

definition safelyMakeRequest_call ::
  "('a \<Rightarrow> 'e outcome) \<Rightarrow> 'k \<Rightarrow> ('k, 'a, 'e) provider
     \<Rightarrow> ('k, 'a, 'e) provider \<times> ('k \<times> 'e option) option" where
  "safelyMakeRequest_call run k s =
     (case map_of (requestQueue s) k of
        None \<Rightarrow> (s, Some (k, None))
      | Some a \<Rightarrow>
          (let s1 = s\<lparr> trace := trace s @ [Invoke k a] \<rparr> in
           case run a of
             Throws e \<Rightarrow> (finishRequest k (catchError e s1), None)
           | Returns \<Rightarrow> (s1, Some (k, None))
           | Resolves \<Rightarrow> (s1, Some (k, None))
           | Rejects e \<Rightarrow> (s1, Some (k, Some e))))"

text \<open>The part of \<^verbatim>\<open>safelyMakeRequest\<close> that runs once the awaited value has settled.\<close>

definition safelyMakeRequest_resume ::
  "'k \<times> 'e option \<Rightarrow> ('k, 'a, 'e) provider \<Rightarrow> ('k, 'a, 'e) provider" where
  "safelyMakeRequest_resume p s =
     (let s1 = s\<lparr> trace := trace s @ [Awaited (fst p)] \<rparr> in
      finishRequest (fst p) (case snd p of None \<Rightarrow> s1 | Some e \<Rightarrow> catchError e s1))"

definition makeRequest ::
  "('a \<Rightarrow> 'e outcome) \<Rightarrow> 'k \<Rightarrow> 'a \<Rightarrow> ('k, 'a, 'e) provider \<Rightarrow> ('k, 'a, 'e) provider" where
  "makeRequest run requestKey request s =
     (let s1 = s\<lparr> requestQueue := AList.update requestKey request (requestQueue s) \<rparr> in
      if \<not> canPlay s1 then s1
      else
        (case safelyMakeRequest_call run requestKey s1 of
           (s2, call) \<Rightarrow>
             (let s3 = s2\<lparr> requestQueue := AList.delete requestKey (requestQueue s2) \<rparr> in
              case call of
                None \<Rightarrow> s3
              | Some p \<Rightarrow> s3\<lparr> suspended := suspended s3 @ [p] \<rparr>)))"

text \<open>
  A later turn in which the suspended call number \<open>i\<close> resumes: the awaited value
  has settled, and the rest of that \<^verbatim>\<open>safelyMakeRequest\<close> runs, with its
  \<^verbatim>\<open>requestQueue.delete(requestKey)\<close>.
\<close>

definition resumeSuspended :: "nat \<Rightarrow> ('k, 'a, 'e) provider \<Rightarrow> ('k, 'a, 'e) provider" where
  "resumeSuspended i s =
     (if i < length (suspended s)
      then safelyMakeRequest_resume (suspended s ! i)
             (s\<lparr> suspended := take i (suspended s) @ drop (Suc i) (suspended s) \<rparr>)
      else s)"

text \<open>
  \<^verbatim>\<open>requests.map(reqKey => this.safelyMakeRequest(reqKey))\<close>: the first parts of all
  the calls run one after the other, in the order of the keys, before any of them is
  resumed.
\<close>

fun safelyMakeRequest_all ::
  "('a \<Rightarrow> 'e outcome) \<Rightarrow> 'k list \<Rightarrow> ('k, 'a, 'e) provider
     \<Rightarrow> ('k, 'a, 'e) provider \<times> ('k \<times> 'e option) list" where
  "safelyMakeRequest_all run [] s = (s, [])"
| "safelyMakeRequest_all run (k # ks) s =
     (case safelyMakeRequest_call run k s of
        (s1, call) \<Rightarrow>
          (case safelyMakeRequest_all run ks s1 of
             (s2, rest) \<Rightarrow>
               (s2, (case call of None \<Rightarrow> rest | Some p \<Rightarrow> p # rest))))"

definition resolveFlush :: "('k, 'a, 'e) provider \<Rightarrow> ('k, 'a, 'e) provider" where
  "resolveFlush s =
     s\<lparr> resolved := insert (pendingRequestQueueFlush s) (resolved s),
        trace := trace s @ [FlushResolved (pendingRequestQueueFlush s)] \<rparr>"

text \<open>
  \<^verbatim>\<open>flushRequestQueue\<close>. \<^verbatim>\<open>await Promise.all(...)\<close> returns once every call started
  by the flush has resumed; \<open>order\<close> arranges those calls in the order in which they
  resume. Then the map is cleared and the deferred resolved.
\<close>

definition flushRequestQueue ::
  "('a \<Rightarrow> 'e outcome) \<Rightarrow> (('k \<times> 'e option) list \<Rightarrow> ('k \<times> 'e option) list)
     \<Rightarrow> ('k, 'a, 'e) provider \<Rightarrow> ('k, 'a, 'e) provider" where
  "flushRequestQueue run order s =
     (let requests = map fst (requestQueue s) in
      case safelyMakeRequest_all run requests s of
        (s1, calls) \<Rightarrow>
          (let s2 = foldl (\<lambda>t p. safelyMakeRequest_resume p t) s1 (order calls);
               s3 = s2\<lparr> requestQueue := [] \<rparr>
           in resolveFlush s3))"

definition resetRequestQueue :: "('k, 'a, 'e) provider \<Rightarrow> ('k, 'a, 'e) provider" where
  "resetRequestQueue s =
     (let s1 = s\<lparr> requestQueue := [] \<rparr>;
          s2 = resolveFlush s1
      in s2\<lparr> pendingRequestQueueFlush := deferredCount s2,
              deferredCount := Suc (deferredCount s2) \<rparr>)"

text \<open>
  \<^verbatim>\<open>waitForRequestQueueToFlush\<close> returns at once when \<^verbatim>\<open>canPlay\<close> holds, and
  otherwise awaits the promise of the deferred that is current at the call.
\<close>

datatype waiting = ReturnsAtOnce | AwaitsDeferred nat

definition waitForRequestQueueToFlush :: "('k, 'a, 'e) provider \<Rightarrow> waiting" where
  "waitForRequestQueueToFlush s =
     (if canPlay s then ReturnsAtOnce else AwaitsDeferred (pendingRequestQueueFlush s))"

text \<open>Whether a caller of \<^verbatim>\<open>waitForRequestQueueToFlush\<close> has been let go in state \<open>s\<close>.\<close>

fun released :: "waiting \<Rightarrow> ('k, 'a, 'e) provider \<Rightarrow> bool" where
  "released ReturnsAtOnce s = True"
| "released (AwaitsDeferred d) s = (d \<in> resolved s)"

text \<open>
  What happens to the provider, one step after the other: the calls a subclass or a
  consumer makes on it, and the turns in which a suspended call resumes. Assignments to
  \<^verbatim>\<open>context.canPlay\<close> come from the engine's readiness handler and from the resets of
  the media context, which put \<^verbatim>\<open>canPlay\<close> back to its default.
\<close>

datatype ('k, 'a) call =
    MakeRequest 'k 'a
  | FlushRequestQueue
  | ResetRequestQueue
  | SetCanPlay bool
  | Resume nat

fun perform ::
  "('a \<Rightarrow> 'e outcome) \<Rightarrow> (('k \<times> 'e option) list \<Rightarrow> ('k \<times> 'e option) list)
     \<Rightarrow> ('k, 'a, 'e) provider \<Rightarrow> ('k, 'a) call \<Rightarrow> ('k, 'a, 'e) provider" where
  "perform run order s (MakeRequest k a) = makeRequest run k a s"
| "perform run order s FlushRequestQueue = flushRequestQueue run order s"
| "perform run order s ResetRequestQueue = resetRequestQueue s"
| "perform run order s (SetCanPlay b) = s\<lparr> canPlay := b \<rparr>"
| "perform run order s (Resume i) = resumeSuspended i s"

definition performAll ::
  "('a \<Rightarrow> 'e outcome) \<Rightarrow> (('k \<times> 'e option) list \<Rightarrow> ('k \<times> 'e option) list)
     \<Rightarrow> ('k, 'a) call list \<Rightarrow> ('k, 'a, 'e) provider \<Rightarrow> ('k, 'a, 'e) provider" where
  "performAll run order cs s = foldl (perform run order) s cs"

text \<open>The steps that neither flush nor reset the queue of the provider.\<close>

fun keeps_waiting :: "('k, 'a) call \<Rightarrow> bool" where
  "keeps_waiting (MakeRequest k a) = True"
| "keeps_waiting (SetCanPlay b) = True"
| "keeps_waiting (Resume i) = True"
| "keeps_waiting FlushRequestQueue = False"
| "keeps_waiting ResetRequestQueue = False"

text \<open>The actions called, in the order of their calls, with the key of each.\<close>

fun invocations :: "('k, 'a, 'e) event list \<Rightarrow> ('k \<times> 'a) list" where
  "invocations [] = []"
| "invocations (Invoke k a # es) = (k, a) # invocations es"
| "invocations (_ # es) = invocations es"

text \<open>A batch of requests made one after the other, as assignments to the properties are.\<close>

definition makeRequests ::
  "('a \<Rightarrow> 'e outcome) \<Rightarrow> ('k \<times> 'a) list \<Rightarrow> ('k, 'a, 'e) provider \<Rightarrow> ('k, 'a, 'e) provider" where
  "makeRequests run rs s = foldl (\<lambda>t p. makeRequest run (fst p) (snd p) t) s rs"

text \<open>
  The events of one flush, written out. \<open>callEvents\<close> is what the first part of
  \<^verbatim>\<open>safelyMakeRequest\<close> does for a queued action, \<open>suspension\<close> what it is left
  waiting for, \<open>resumeEvents\<close> what its second part does; \<open>flushEvents\<close> puts all
  first parts, in the order of the queue, before the second parts, in the order in
  which they resume.
\<close>

fun callEvents :: "('a \<Rightarrow> 'e outcome) \<Rightarrow> 'k \<times> 'a \<Rightarrow> ('k, 'a, 'e) event list" where
  "callEvents run (k, a) =
     Invoke k a # (case run a of Throws e \<Rightarrow> [ErrorEvent e, RequestUpdate] | _ \<Rightarrow> [])"

fun suspension :: "('a \<Rightarrow> 'e outcome) \<Rightarrow> 'k \<times> 'a \<Rightarrow> ('k \<times> 'e option) option" where
  "suspension run (k, a) =
     (case run a of
        Throws e \<Rightarrow> None
      | Returns \<Rightarrow> Some (k, None)
      | Resolves \<Rightarrow> Some (k, None)
      | Rejects e \<Rightarrow> Some (k, Some e))"

fun resumeEvents :: "'k \<times> 'e option \<Rightarrow> ('k, 'a, 'e) event list" where
  "resumeEvents (k, r) =
     Awaited k # (case r of None \<Rightarrow> [] | Some e \<Rightarrow> [ErrorEvent e]) @ [RequestUpdate]"

definition flushEvents ::
  "('a \<Rightarrow> 'e outcome) \<Rightarrow> (('k \<times> 'e option) list \<Rightarrow> ('k \<times> 'e option) list)
     \<Rightarrow> ('k \<times> 'a) list \<Rightarrow> ('k, 'a, 'e) event list" where
  "flushEvents run order q =
     concat (map (callEvents run) q)
       @ concat (map resumeEvents (order (List.map_filter (suspension run) q)))"

text \<open>
  The value \<^verbatim>\<open>context.error\<close> has after a list of events, given the one it had before:
  every \<^verbatim>\<open>catch\<close> assigns it just before it dispatches the error event.
\<close>

definition lastError :: "('k, 'a, 'e) event list \<Rightarrow> 'e option \<Rightarrow> 'e option" where
  "lastError es before = foldl (\<lambda>r ev. case ev of ErrorEvent e \<Rightarrow> Some e | _ \<Rightarrow> r) before es"

text \<open>The error an action throws, or rejects its promise with.\<close>

definition failure :: "'e outcome \<Rightarrow> 'e option" where
  "failure out = (case out of Throws e \<Rightarrow> Some e | Rejects e \<Rightarrow> Some e | _ \<Rightarrow> None)"

section \<open>The request queue class\<close>

text \<open>
  Modelled from the spec: the class \<^verbatim>\<open>RequestQueue\<close> (\<^verbatim>\<open>@base/queue\<close>), which the
  sources import and test but do not contain. The definitions follow sections 3 and
  4.1 of the specification: a map from key to action that keeps insertion order and
  holds one action per key; the flag \<^verbatim>\<open>serveImmediately\<close>; \<^verbatim>\<open>queue\<close> calls the
  action at once in pass-through mode and stores it otherwise; \<^verbatim>\<open>start\<close> flips to
  pass-through mode, calls every pending action in insertion order, clears the map and
  releases the waiters; \<^verbatim>\<open>stop\<close> flips back and leaves the entries; \<^verbatim>\<open>serve\<close> calls
  and removes one entry; \<^verbatim>\<open>reset\<close> discards the entries and leaves the flag;
  \<^verbatim>\<open>destroy\<close> discards the entries, releases the waiters and is terminal: every
  operation on a destroyed queue is a no-op. \<open>served\<close> lists the actions called so
  far, \<open>flushWaiters\<close> the callers of \<^verbatim>\<open>waitForFlush\<close> still waiting and
  \<open>releasedWaiters\<close> those let go.
\<close>

record ('k, 'a) request_queue =
  pending :: "('k \<times> 'a) list"
  serveImmediately :: bool
  destroyed :: bool
  served :: "('k \<times> 'a) list"
  flushWaiters :: "nat list"
  releasedWaiters :: "nat list"

text \<open>Modelled from the spec: \<^verbatim>\<open>RequestQueue\<close> is "created empty in queuing mode".\<close>

definition newRequestQueue :: "('k, 'a) request_queue" where
  "newRequestQueue =
     \<lparr> pending = [], serveImmediately = False, destroyed = False, served = [],
       flushWaiters = [], releasedWaiters = [] \<rparr>"

text \<open>Modelled from the spec: \<^verbatim>\<open>size\<close> is the "count of currently pending (non-yet-invoked) actions".\<close>

definition size_queue :: "('k, 'a) request_queue \<Rightarrow> nat" where
  "size_queue q = length (pending q)"

text \<open>Modelled from the spec: \<^verbatim>\<open>queue(key, action)\<close> "inserts/overwrites an entry; if already in
  pass-through mode, the callback executes immediately and is not retained".\<close>

definition queue :: "'k \<Rightarrow> 'a \<Rightarrow> ('k, 'a) request_queue \<Rightarrow> ('k, 'a) request_queue" where
  "queue key action q =
     (if destroyed q then q
      else if serveImmediately q then q\<lparr> served := served q @ [(key, action)] \<rparr>
      else q\<lparr> pending := AList.update key action (pending q) \<rparr>)"

text \<open>Modelled from the spec: \<^verbatim>\<open>start()\<close> "flips to pass-through mode; invokes every pending
  action in the order originally queued (insertion order, not key order); awaits all of
  them (if async) before resolving; clears the queue; releases any pending waitForFlush
  waiters". An action is called as one step here; awaiting is followed in the provider's
  own queue above.\<close>

definition start :: "('k, 'a) request_queue \<Rightarrow> ('k, 'a) request_queue" where
  "start q =
     (if destroyed q then q
      else q\<lparr> serveImmediately := True, served := served q @ pending q, pending := [],
              releasedWaiters := releasedWaiters q @ flushWaiters q, flushWaiters := [] \<rparr>)"

text \<open>Modelled from the spec: \<^verbatim>\<open>flush()\<close> is the other name of \<^verbatim>\<open>start()\<close>
  ("\<^verbatim>\<open>start()\<close>/\<^verbatim>\<open>flush()\<close> transitions to pass-through mode and invokes all pending
  callbacks in insertion order, clearing the map").\<close>

definition flush :: "('k, 'a) request_queue \<Rightarrow> ('k, 'a) request_queue" where
  "flush q = start q"

text \<open>Modelled from the spec: \<^verbatim>\<open>stop()\<close> "flips back to queuing mode; does not touch pending/queued
  entries".\<close>

definition stop :: "('k, 'a) request_queue \<Rightarrow> ('k, 'a) request_queue" where
  "stop q = (if destroyed q then q else q\<lparr> serveImmediately := False \<rparr>)"

text \<open>Modelled from the spec: \<^verbatim>\<open>serve(key)\<close> "invokes and removes a single pending action by key if
  present; no-op if absent; independent of serve-immediately mode".\<close>

definition serve :: "'k \<Rightarrow> ('k, 'a) request_queue \<Rightarrow> ('k, 'a) request_queue" where
  "serve key q =
     (if destroyed q then q
      else case map_of (pending q) key of
             None \<Rightarrow> q
           | Some action \<Rightarrow>
               q\<lparr> served := served q @ [(key, action)], pending := AList.delete key (pending q) \<rparr>)"

text \<open>Modelled from the spec: \<^verbatim>\<open>reset()\<close> "discards all pending actions without invoking them; mode
  flag untouched".\<close>

definition reset :: "('k, 'a) request_queue \<Rightarrow> ('k, 'a) request_queue" where
  "reset q = (if destroyed q then q else q\<lparr> pending := [] \<rparr>)"

text \<open>Modelled from the spec: \<^verbatim>\<open>destroy()\<close> "discards all pending actions, releases all
  waitForFlush waiters", it "acts as a terminal state", and "further operations on a
  destroyed queue are safe no-ops, never throw".\<close>

definition destroy :: "('k, 'a) request_queue \<Rightarrow> ('k, 'a) request_queue" where
  "destroy q =
     (if destroyed q then q
      else q\<lparr> pending := [], destroyed := True,
              releasedWaiters := releasedWaiters q @ flushWaiters q, flushWaiters := [] \<rparr>)"

text \<open>Modelled from the spec: \<^verbatim>\<open>waitForFlush()\<close> "resolves the first time the queue either
  starts serving or is destroyed, whichever happens first; if queue is already serving,
  should resolve immediately". The caller is named by the number \<open>w\<close>.\<close>

definition waitForFlush :: "nat \<Rightarrow> ('k, 'a) request_queue \<Rightarrow> ('k, 'a) request_queue" where
  "waitForFlush w q =
     (if destroyed q \<or> serveImmediately q then q\<lparr> releasedWaiters := releasedWaiters q @ [w] \<rparr>
      else q\<lparr> flushWaiters := flushWaiters q @ [w] \<rparr>)"

text \<open>The calls a user of the queue can make, and a sequence of them.\<close>

datatype ('k, 'a) queue_call =
    Queue 'k 'a
  | Serve 'k
  | Start
  | Stop
  | Reset
  | Destroy
  | WaitForFlush nat

fun apply_call :: "('k, 'a) request_queue \<Rightarrow> ('k, 'a) queue_call \<Rightarrow> ('k, 'a) request_queue" where
  "apply_call q (Queue k a) = queue k a q"
| "apply_call q (Serve k) = serve k q"
| "apply_call q Start = start q"
| "apply_call q Stop = stop q"
| "apply_call q Reset = reset q"
| "apply_call q Destroy = destroy q"
| "apply_call q (WaitForFlush w) = waitForFlush w q"

definition apply_calls :: "('k, 'a) queue_call list \<Rightarrow> ('k, 'a) request_queue \<Rightarrow> ('k, 'a) request_queue" where
  "apply_calls cs q = foldl apply_call q cs"

text \<open>The calls \<^verbatim>\<open>stop()\<close>, \<^verbatim>\<open>reset()\<close> and \<^verbatim>\<open>destroy()\<close>.\<close>

fun stop_reset_or_destroy :: "('k, 'a) queue_call \<Rightarrow> bool" where
  "stop_reset_or_destroy Stop = True"
| "stop_reset_or_destroy Reset = True"
| "stop_reset_or_destroy Destroy = True"
| "stop_reset_or_destroy _ = False"

section \<open>The media provider and its context record\<close>

text \<open>
  Source: \<^verbatim>\<open>src/media/provider/MediaProviderElement.ts\<close>. The provider owns the
  context record \<^verbatim>\<open>ctx\<close>, two request queues and the flag
  \<^verbatim>\<open>_hasFlushedMediaRequestQueueOnce\<close>; \<open>dispatched\<close> lists the events it has
  dispatched. The record \<^verbatim>\<open>ctx\<close> is a map from property name
  to value. The object \<^verbatim>\<open>mediaContext\<close>, which declares the properties and the initial
  value of each, is not among the sources: it is the parameter \<open>mediaContext\<close>, the
  list of the keys \<^verbatim>\<open>Object.keys(mediaContext)\<close> with \<^verbatim>\<open>mediaContext[prop].initialValue\<close>
  beside each.
\<close>

record ('k, 'a, 'v) media_provider =
  ctx :: "string \<rightharpoonup> 'v"
  connectedQueue :: "('k, 'a) request_queue"
  mediaRequestQueue :: "('k, 'a) request_queue"
  hasFlushedMediaRequestQueueOnce :: bool
  dispatched :: "string list"

text \<open>
  The values a context property can hold, as far as they are written below. \<^verbatim>\<open>NaN\<close> is
  a value of its own, so that no arithmetic on it is needed.
\<close>

datatype js_value = JBoolean bool | JNumber real | JNaN | JString string | JUndefined

definition getMediaPropsToResetWhenSrcChanges :: "string set" where
  "getMediaPropsToResetWhenSrcChanges =
     set [''buffered'', ''buffering'', ''canPlay'', ''canPlayThrough'', ''currentSrc'',
          ''currentTime'', ''duration'', ''ended'', ''mediaType'', ''paused'', ''canPlay'',
          ''played'', ''playing'', ''seekable'', ''seeking'', ''started'', ''waiting'']"

definition softResetMediaContext :: "(string \<times> 'v) list \<Rightarrow> (string \<rightharpoonup> 'v) \<Rightarrow> (string \<rightharpoonup> 'v)" where
  "softResetMediaContext mediaContext c =
     (let propsToReset = getMediaPropsToResetWhenSrcChanges in
      foldl (\<lambda>c' p. if fst p \<in> propsToReset then c'(fst p \<mapsto> snd p) else c') c mediaContext)"


text \<open>
  \<^verbatim>\<open>_handleMediaReady\<close>: \<^verbatim>\<open>canPlay\<close> becomes true, \<^verbatim>\<open>vds-can-play\<close> is dispatched, the
  media request queue is flushed and then put into pass-through mode by the assignment
  to \<^verbatim>\<open>serveImmediately\<close>.
\<close>

definition handleMediaReady ::
  "('k, 'a, js_value) media_provider \<Rightarrow> ('k, 'a, js_value) media_provider" where
  "handleMediaReady p =
     p\<lparr> ctx := (ctx p)(''canPlay'' \<mapsto> JBoolean True),
        dispatched := dispatched p @ [''vds-can-play''],
        mediaRequestQueue := (flush (mediaRequestQueue p))\<lparr> serveImmediately := True \<rparr> \<rparr>"




section \<open>Stores\<close>

text \<open>
  Modelled from the spec: the stores (\<^verbatim>\<open>writable\<close>, \<^verbatim>\<open>readable\<close>, \<^verbatim>\<open>derived\<close> of
  \<^verbatim>\<open>base/stores\<close>), of which the sources hold the tests and the helper
  \<^verbatim>\<open>hostedStoreSubscription\<close> only. The definitions follow section 4.2 of the
  specification. A field holds its current value and its subscribers in subscription
  order. \<^verbatim>\<open>set\<close> with the current value does nothing; with another value it stores
  the value and notifies every subscriber, in subscription order, before it returns.
  \<^verbatim>\<open>subscribe\<close> calls the listener once with the current value and registers it; the
  disposer it returns removes the listener. A listener is named by a number, and
  \<open>notified\<close> lists the calls of listeners made so far, each with the value passed.
  For a derived field \<^verbatim>\<open>set\<close> is the internal update made when a dependency changes.
\<close>

record 'v store =
  current :: 'v
  subscribers :: "nat list"
  notified :: "(nat \<times> 'v) list"

text \<open>Modelled from the spec: a field is created holding its initial value, with no subscriber.\<close>

definition writable :: "'v \<Rightarrow> 'v store" where
  "writable v = \<lparr> current = v, subscribers = [], notified = [] \<rparr>"

text \<open>Modelled from the spec: \<^verbatim>\<open>set(value)\<close>: "if value is unchanged (by equality), no notification
  fires. If changed, every active subscriber for this field is notified, synchronously, in
  subscription order, before set() returns".\<close>

definition set_store :: "'v \<Rightarrow> 'v store \<Rightarrow> 'v store" where
  "set_store v s =
     (if v = current s then s
      else s\<lparr> current := v, notified := notified s @ map (\<lambda>cb. (cb, v)) (subscribers s) \<rparr>)"

text \<open>Modelled from the spec: \<^verbatim>\<open>subscribe(onChange)\<close> "registers a listener; invoked once
  immediately with the current value upon subscribing, then again on every subsequent
  change".\<close>

definition subscribe :: "nat \<Rightarrow> 'v store \<Rightarrow> 'v store" where
  "subscribe cb s =
     s\<lparr> subscribers := subscribers s @ [cb], notified := notified s @ [(cb, current s)] \<rparr>"

text \<open>Modelled from the spec: the disposer \<^verbatim>\<open>subscribe\<close> returns; it removes the listener.\<close>

definition unsubscribe :: "nat \<Rightarrow> 'v store \<Rightarrow> 'v store" where
  "unsubscribe cb s = s\<lparr> subscribers := remove1 cb (subscribers s) \<rparr>"

text \<open>Several writes in a row, the values a listener was called with, and the values
  among \<open>vs\<close> that differ from the value written just before them.\<close>

definition set_all :: "'v list \<Rightarrow> 'v store \<Rightarrow> 'v store" where
  "set_all vs s = foldl (\<lambda>t v. set_store v t) s vs"

definition calls_of :: "nat \<Rightarrow> (nat \<times> 'v) list \<Rightarrow> 'v list" where
  "calls_of cb ns = map snd (filter (\<lambda>n. fst n = cb) ns)"

fun changes :: "'v \<Rightarrow> 'v list \<Rightarrow> 'v list" where
  "changes c [] = []"
| "changes c (v # vs) = (if v = c then changes c vs else v # changes v vs)"

text \<open>
  Source: \<^verbatim>\<open>src/base/stores/hostedStoreSubscription.ts\<close>. The controller added to
  the host subscribes \<^verbatim>\<open>onChange\<close> to the store when the host connects and keeps the
  disposer; it calls the disposer, if there is one, when the host disconnects. The
  store is the one the context consumer resolves to, or the store passed in.
\<close>

record 'v hosted =
  hostedStore :: "'v store"
  unsubscribe_handle :: "nat option"

definition hostedStoreSubscription :: "'v store \<Rightarrow> 'v hosted" where
  "hostedStoreSubscription s = \<lparr> hostedStore = s, unsubscribe_handle = None \<rparr>"

definition hostConnected :: "nat \<Rightarrow> 'v hosted \<Rightarrow> 'v hosted" where
  "hostConnected onChange h =
     h\<lparr> hostedStore := subscribe onChange (hostedStore h), unsubscribe_handle := Some onChange \<rparr>"

definition hostDisconnected :: "'v hosted \<Rightarrow> 'v hosted" where
  "hostDisconnected h =
     (case unsubscribe_handle h of
        None \<Rightarrow> h
      | Some cb \<Rightarrow> h\<lparr> hostedStore := unsubscribe cb (hostedStore h) \<rparr>)"

section \<open>The HLS provider's support check\<close>

text \<open>
  Source: \<^verbatim>\<open>HlsElement.canPlayType\<close>. \<^verbatim>\<open>super.canPlayType\<close>, the check of
  \<^verbatim>\<open>VideoElement\<close>, and the getter \<^verbatim>\<open>isHlsSupported\<close> are parameters. The body is two
  statements: an \<^verbatim>\<open>if\<close> whose branch is an expression statement, and a \<^verbatim>\<open>return\<close>.
  A statement either completes normally or returns a value; an expression statement
  evaluates its expression, drops the value and completes normally.
\<close>

datatype CanPlay = No | Maybe | Probably

definition HLS_TYPES :: "string set" where
  "HLS_TYPES = {''application/x-mpegURL'', ''application/vnd.apple.mpegurl''}"

datatype 'r completion = Normal | Return 'r

definition expression_statement :: "'x \<Rightarrow> 'r completion" where
  "expression_statement x = Normal"

definition canPlayType :: "(string \<Rightarrow> CanPlay) \<Rightarrow> bool \<Rightarrow> string \<Rightarrow> CanPlay" where
  "canPlayType superCanPlayType isHlsSupported type =
     (case (if type \<in> HLS_TYPES
            then expression_statement (if isHlsSupported then Probably else No)
            else Normal) of
        Return r \<Rightarrow> r
      | Normal \<Rightarrow> superCanPlayType type)"

section \<open>Properties of the provider's request queue\<close>

lemma invocations_append: "invocations (xs @ ys) = invocations xs @ invocations ys"
  by (induction xs rule: invocations.induct) simp_all

lemma call_lookup_other:
  "k' \<noteq> k \<Longrightarrow> map_of (requestQueue (fst (safelyMakeRequest_call run k s))) k' = map_of (requestQueue s) k'"
  by (simp add: safelyMakeRequest_call_def finishRequest_def catchError_def Let_def
      split: option.splits outcome.splits)

lemma call_invocations:
  "map_of (requestQueue s) k = Some a \<Longrightarrow>
   invocations (trace (fst (safelyMakeRequest_call run k s))) = invocations (trace s) @ [(k, a)]"
  by (simp add: safelyMakeRequest_call_def finishRequest_def catchError_def Let_def invocations_append
      split: option.splits outcome.splits)

lemma call_distinct:
  "distinct (map fst (requestQueue s)) \<Longrightarrow>
   distinct (map fst (requestQueue (fst (safelyMakeRequest_call run k s))))"
  by (simp add: safelyMakeRequest_call_def finishRequest_def catchError_def Let_def distinct_delete
      split: option.splits outcome.splits)

lemma resume_invocations:
  "invocations (trace (safelyMakeRequest_resume p s)) = invocations (trace s)"
  by (simp add: safelyMakeRequest_resume_def finishRequest_def catchError_def Let_def invocations_append
      split: option.splits)

lemma resume_all_invocations:
  "invocations (trace (foldl (\<lambda>t p. safelyMakeRequest_resume p t) s ps)) = invocations (trace s)"
  by (induction ps arbitrary: s) (simp_all add: resume_invocations)

lemma all_Cons_fst:
  "fst (safelyMakeRequest_all run (k # ks) s)
     = fst (safelyMakeRequest_all run ks (fst (safelyMakeRequest_call run k s)))"
  by (simp split: prod.splits)

lemma all_invocations:
  "distinct ks \<Longrightarrow> \<forall>k \<in> set ks. map_of (requestQueue s) k \<noteq> None \<Longrightarrow>
   invocations (trace (fst (safelyMakeRequest_all run ks s)))
     = invocations (trace s) @ map (\<lambda>k. (k, the (map_of (requestQueue s) k))) ks"
proof (induction ks arbitrary: s)
  case Nil
  then show ?case by simp
next
  case (Cons k ks)
  obtain s1 susp where c: "safelyMakeRequest_call run k s = (s1, susp)" by (cases "safelyMakeRequest_call run k s")
  obtain a where a: "map_of (requestQueue s) k = Some a" using Cons.prems by auto
  have s1: "s1 = fst (safelyMakeRequest_call run k s)" using c by simp
  have other: "\<forall>k' \<in> set ks. map_of (requestQueue s1) k' = map_of (requestQueue s) k'"
  proof
    fix k' assume "k' \<in> set ks"
    with Cons.prems(1) have "k' \<noteq> k" by auto
    then show "map_of (requestQueue s1) k' = map_of (requestQueue s) k'"
      unfolding s1 by (rule call_lookup_other)
  qed
  have ih: "invocations (trace (fst (safelyMakeRequest_all run ks s1)))
     = invocations (trace s1) @ map (\<lambda>k. (k, the (map_of (requestQueue s1) k))) ks"
    using Cons.IH[of s1] Cons.prems other by simp
  have "map (\<lambda>k. (k, the (map_of (requestQueue s1) k))) ks = map (\<lambda>k. (k, the (map_of (requestQueue s) k))) ks"
    using other by simp
  with ih call_invocations[OF a, of run] show ?case
    unfolding all_Cons_fst s1[symmetric] by (simp add: a s1)
qed

lemma keys_lookup_id:
  assumes "distinct (map fst q)"
  shows "map (\<lambda>k. (k, the (map_of q k))) (map fst q) = q"
proof -
  have "\<forall>p \<in> set q. (fst p, the (map_of q (fst p))) = p"
    using assms by (auto simp: map_of_is_SomeI)
  then show ?thesis by (simp add: comp_def map_idI)
qed

lemma flush_invocations:
  assumes "distinct (map fst (requestQueue s))"
  shows "invocations (trace (flushRequestQueue run order s)) = invocations (trace s) @ requestQueue s"
proof -
  have "\<forall>k \<in> set (map fst (requestQueue s)). map_of (requestQueue s) k \<noteq> None"
    by (auto simp: map_of_eq_None_iff)
  from all_invocations[OF assms this, of run]
  have a: "invocations (trace (fst (safelyMakeRequest_all run (map fst (requestQueue s)) s)))
     = invocations (trace s) @ requestQueue s"
    by (simp only: keys_lookup_id[OF assms])
  obtain s1 susp where c: "safelyMakeRequest_all run (map fst (requestQueue s)) s = (s1, susp)"
    by (cases "safelyMakeRequest_all run (map fst (requestQueue s)) s")
  show ?thesis using a
    by (simp add: flushRequestQueue_def resolveFlush_def Let_def c resume_all_invocations
        invocations_append)
qed

lemma makeRequest_queuing:
  "\<not> canPlay s \<Longrightarrow>
   makeRequest run k a s = s\<lparr> requestQueue := AList.update k a (requestQueue s) \<rparr>"
  by (simp add: makeRequest_def)

lemma makeRequests_queuing:
  "\<not> canPlay s \<Longrightarrow>
   makeRequests run rs s
     = s\<lparr> requestQueue := foldl (\<lambda>q p. AList.update (fst p) (snd p) q) (requestQueue s) rs \<rparr>"
proof (induction rs arbitrary: s)
  case Nil
  then show ?case by (simp add: makeRequests_def)
next
  case (Cons r rs)
  let ?s1 = "s\<lparr> requestQueue := AList.update (fst r) (snd r) (requestQueue s) \<rparr>"
  have "makeRequests run (r # rs) s = makeRequests run rs ?s1"
    using Cons.prems by (simp add: makeRequests_def makeRequest_queuing)
  also have "\<dots> = ?s1\<lparr> requestQueue :=
      foldl (\<lambda>q p. AList.update (fst p) (snd p) q) (requestQueue ?s1) rs \<rparr>"
    using Cons.prems by (intro Cons.IH) simp
  finally show ?case by simp
qed

lemma updates_distinct:
  "distinct (map fst q) \<Longrightarrow>
   distinct (map fst (foldl (\<lambda>q p. AList.update (fst p) (snd p) q) q rs))"
  by (induction rs arbitrary: q) (simp_all add: distinct_update)

lemma updates_lookup_other:
  "k \<notin> fst ` set rs \<Longrightarrow>
   map_of (foldl (\<lambda>q p. AList.update (fst p) (snd p) q) q rs) k = map_of q k"
  by (induction rs arbitrary: q) (simp_all add: update_conv')

lemma filter_key_single:
  "distinct (map fst q) \<Longrightarrow> map_of q k = Some v \<Longrightarrow> filter (\<lambda>p. fst p = k) q = [(k, v)]"
proof (induction q)
  case Nil
  then show ?case by simp
next
  case (Cons p q)
  show ?case
  proof (cases "fst p = k")
    case True
    with Cons.prems have "p = (k, v)" by (cases p) simp
    moreover have "k \<notin> fst ` set q" using Cons.prems(1) True by simp
    then have "\<forall>x \<in> set q. fst x \<noteq> k" by (metis imageI)
    then have "filter (\<lambda>p. fst p = k) q = []" by (simp add: filter_empty_conv)
    ultimately show ?thesis by simp
  next
    case False
    with Cons show ?thesis by simp
  qed
qed

lemma resume_distinct:
  "distinct (map fst (requestQueue s)) \<Longrightarrow>
   distinct (map fst (requestQueue (safelyMakeRequest_resume p s)))"
  by (simp add: safelyMakeRequest_resume_def finishRequest_def catchError_def Let_def distinct_delete
      split: option.splits)

lemma makeRequest_distinct:
  assumes "distinct (map fst (requestQueue s))"
  shows "distinct (map fst (requestQueue (makeRequest run k a s)))"
proof -
  let ?s1 = "s\<lparr> requestQueue := AList.update k a (requestQueue s) \<rparr>"
  have d1: "distinct (map fst (requestQueue ?s1))" using assms by (simp add: distinct_update)
  obtain s2 susp where c: "safelyMakeRequest_call run k ?s1 = (s2, susp)"
    by (cases "safelyMakeRequest_call run k ?s1")
  have d2: "distinct (map fst (requestQueue s2))" using call_distinct[OF d1, of run k] c by simp
  show ?thesis using d1 d2
    by (simp add: makeRequest_def Let_def c distinct_delete split: option.splits)
qed

lemma resumeSuspended_distinct:
  "distinct (map fst (requestQueue s)) \<Longrightarrow>
   distinct (map fst (requestQueue (resumeSuspended i s)))"
  by (simp add: resumeSuspended_def resume_distinct)

lemma perform_distinct:
  "distinct (map fst (requestQueue s)) \<Longrightarrow>
   distinct (map fst (requestQueue (perform run order s c)))"
proof (cases c)
  case (MakeRequest k a)
  assume "distinct (map fst (requestQueue s))"
  then show ?thesis using MakeRequest by (simp add: makeRequest_distinct)
next
  case FlushRequestQueue
  then show ?thesis
    by (simp add: flushRequestQueue_def resolveFlush_def Let_def split: prod.splits)
next
  case ResetRequestQueue
  then show ?thesis by (simp add: resetRequestQueue_def resolveFlush_def Let_def)
next
  case (SetCanPlay b)
  assume "distinct (map fst (requestQueue s))"
  then show ?thesis using SetCanPlay by simp
next
  case (Resume i)
  assume "distinct (map fst (requestQueue s))"
  then show ?thesis using Resume by (simp add: resumeSuspended_distinct)
qed

lemma performAll_distinct:
  "distinct (map fst (requestQueue s)) \<Longrightarrow>
   distinct (map fst (requestQueue (performAll run order cs s)))"
  unfolding performAll_def by (induction cs arbitrary: s) (simp_all add: perform_distinct)

text \<open>
  What holds of key coalescing. Here \<^verbatim>\<open>queue(k, f)\<close> is \<^verbatim>\<open>makeRequest(k, f)\<close>, the
  queue is in queuing mode while \<^verbatim>\<open>canPlay\<close> is false, and \<^verbatim>\<open>start()\<close> is
  \<^verbatim>\<open>flushRequestQueue()\<close>. On a provider with no suspended call: when \<open>f\<close> is queued
  under \<open>k\<close>, then any requests \<open>rs1\<close>, then \<open>g\<close> under \<open>k\<close>, then requests
  \<open>rs2\<close> under other keys, the flush adds exactly one call under key \<open>k\<close> to the
  history of calls, and it is the call of \<open>g\<close>. Whatever steps are taken, the keys of
  the queue stay pairwise distinct: no key ever has two pending actions.
\<close>

lemma key_coalescing_when_settled:
  assumes "\<not> canPlay s" and "suspended s = []"
    and "distinct (map fst (requestQueue s))" and "k \<notin> fst ` set rs2"
  shows "filter (\<lambda>p. fst p = k)
           (invocations (trace (flushRequestQueue run order
              (makeRequests run ((k, f) # rs1 @ (k, g) # rs2) s))))
         = filter (\<lambda>p. fst p = k) (invocations (trace s)) @ [(k, g)]
       \<and> suspended (makeRequests run ((k, f) # rs1 @ (k, g) # rs2) s) = []
       \<and> (\<forall>cs. distinct (map fst (requestQueue (performAll run order cs s))))"
proof (intro conjI)
  let ?upd = "\<lambda>q p. AList.update (fst p) (snd p) q"
  let ?rs = "(k, f) # rs1 @ (k, g) # rs2"
  let ?q = "foldl ?upd (requestQueue s) ?rs"
  let ?s1 = "makeRequests run ?rs s"
  have s1: "?s1 = s\<lparr> requestQueue := ?q \<rparr>" using assms(1) by (rule makeRequests_queuing)
  have dq: "distinct (map fst ?q)" using assms(3) by (rule updates_distinct)
  have "?q = foldl ?upd (AList.update k g (foldl ?upd (requestQueue s) ((k, f) # rs1))) rs2"
    by simp
  then have "map_of ?q k = Some g"
    using updates_lookup_other[OF assms(4)] by (simp add: update_conv')
  with dq have one: "filter (\<lambda>p. fst p = k) ?q = [(k, g)]" by (rule filter_key_single)
  have "invocations (trace (flushRequestQueue run order ?s1))
      = invocations (trace ?s1) @ requestQueue ?s1"
    by (rule flush_invocations) (simp add: s1 dq del: foldl_Cons foldl_append)
  then show "filter (\<lambda>p. fst p = k) (invocations (trace (flushRequestQueue run order ?s1)))
         = filter (\<lambda>p. fst p = k) (invocations (trace s)) @ [(k, g)]"
    using one by (simp add: s1 del: foldl_Cons foldl_append)
  show "suspended ?s1 = []" using assms(2) by (simp add: s1 del: foldl_Cons foldl_append)
  show "\<forall>cs. distinct (map fst (requestQueue (performAll run order cs s)))"
    using assms(3) by (simp add: performAll_distinct)
qed

text \<open>
  Claim C1 (key coalescing), evaluated where the source departs from it. The provider
  is ready and the user enters fullscreen: the action is called at once, its promise is
  pending, and the call of \<^verbatim>\<open>safelyMakeRequest\<close> is suspended on it. The source changes,
  so \<^verbatim>\<open>canPlay\<close> is false again, and two requests are made under the same key
  \<^verbatim>\<open>'fullscreen'\<close>, \<open>f\<close> (exit) and then \<open>g\<close> (enter): the queue holds \<open>g\<close> alone.
  Now the first promise settles and the suspended call resumes: its
  \<^verbatim>\<open>requestQueue.delete(requestKey)\<close> removes \<open>g\<close>. The provider becomes ready and
  flushes: \<open>g\<close> is never called, neither is \<open>f\<close>, and the only call ever made is
  the first one.
\<close>

theorem queued_request_deleted_by_earlier_call:
  "requestQueue
       (performAll (\<lambda>a. Resolves) (\<lambda>calls. calls)
          [SetCanPlay True, MakeRequest ''fullscreen'' ''enter'', SetCanPlay False,
           MakeRequest ''fullscreen'' ''f'', MakeRequest ''fullscreen'' ''g'']
          (newProvider :: (string, string, string) provider))
     = [(''fullscreen'', ''g'')]
   \<and> requestQueue
       (performAll (\<lambda>a. Resolves) (\<lambda>calls. calls)
          [SetCanPlay True, MakeRequest ''fullscreen'' ''enter'', SetCanPlay False,
           MakeRequest ''fullscreen'' ''f'', MakeRequest ''fullscreen'' ''g'', Resume 0]
          (newProvider :: (string, string, string) provider))
     = []
   \<and> invocations (trace
       (performAll (\<lambda>a. Resolves) (\<lambda>calls. calls)
          [SetCanPlay True, MakeRequest ''fullscreen'' ''enter'', SetCanPlay False,
           MakeRequest ''fullscreen'' ''f'', MakeRequest ''fullscreen'' ''g'', Resume 0,
           SetCanPlay True, FlushRequestQueue]
          (newProvider :: (string, string, string) provider)))
     = [(''fullscreen'', ''enter'')]"
  by (simp add: performAll_def newProvider_def makeRequest_def safelyMakeRequest_call_def
      resumeSuspended_def safelyMakeRequest_resume_def finishRequest_def
      flushRequestQueue_def resolveFlush_def)

lemma lastError_append: "lastError (xs @ ys) b = lastError ys (lastError xs b)"
  by (simp add: lastError_def)

lemma call_effect:
  assumes "map_of (requestQueue s) k = Some a"
  shows "trace (fst (safelyMakeRequest_call run k s)) = trace s @ callEvents run (k, a)"
    and "snd (safelyMakeRequest_call run k s) = suspension run (k, a)"
    and "context_error (fst (safelyMakeRequest_call run k s))
           = lastError (callEvents run (k, a) :: ('k, 'a, 'e) event list) (context_error s)"
    and "pendingRequestQueueFlush (fst (safelyMakeRequest_call run k s)) = pendingRequestQueueFlush s"
    and "resolved (fst (safelyMakeRequest_call run k s)) = resolved s"
    and "canPlay (fst (safelyMakeRequest_call run k s)) = canPlay s"
  using assms
  by (simp_all add: safelyMakeRequest_call_def finishRequest_def catchError_def Let_def lastError_def
      split: outcome.splits)

lemma resume_effect:
  shows "trace (safelyMakeRequest_resume p s) = trace s @ resumeEvents p"
    and "context_error (safelyMakeRequest_resume p s)
           = lastError (resumeEvents p :: ('k, 'a, 'e) event list) (context_error (s :: ('k, 'a, 'e) provider))"
    and "pendingRequestQueueFlush (safelyMakeRequest_resume p s) = pendingRequestQueueFlush s"
    and "resolved (safelyMakeRequest_resume p s) = resolved s"
    and "canPlay (safelyMakeRequest_resume p s) = canPlay s"
  by (cases p; simp add: safelyMakeRequest_resume_def finishRequest_def catchError_def Let_def lastError_def
      split: option.splits)+

lemma resume_all_effect:
  shows "trace (foldl (\<lambda>t p. safelyMakeRequest_resume p t) s ps) = trace s @ concat (map resumeEvents ps)"
    and "context_error (foldl (\<lambda>t p. safelyMakeRequest_resume p t) s ps)
           = lastError (concat (map resumeEvents ps) :: ('k, 'a, 'e) event list) (context_error (s :: ('k, 'a, 'e) provider))"
    and "pendingRequestQueueFlush (foldl (\<lambda>t p. safelyMakeRequest_resume p t) s ps) = pendingRequestQueueFlush s"
    and "resolved (foldl (\<lambda>t p. safelyMakeRequest_resume p t) s ps) = resolved s"
    and "canPlay (foldl (\<lambda>t p. safelyMakeRequest_resume p t) s ps) = canPlay s"
  by (induction ps arbitrary: s; simp add: resume_effect lastError_append; simp add: lastError_def)+

lemma all_effect:
  assumes "distinct (map fst rs)" and "\<forall>r \<in> set rs. map_of (requestQueue s) (fst r) = Some (snd r)"
  shows "trace (fst (safelyMakeRequest_all run (map fst rs) s)) = trace s @ concat (map (callEvents run) rs)
       \<and> snd (safelyMakeRequest_all run (map fst rs) s) = List.map_filter (suspension run) rs
       \<and> context_error (fst (safelyMakeRequest_all run (map fst rs) s))
           = lastError (concat (map (callEvents run) rs) :: ('k, 'a, 'e) event list) (context_error (s :: ('k, 'a, 'e) provider))
       \<and> pendingRequestQueueFlush (fst (safelyMakeRequest_all run (map fst rs) s)) = pendingRequestQueueFlush s
       \<and> resolved (fst (safelyMakeRequest_all run (map fst rs) s)) = resolved s
       \<and> canPlay (fst (safelyMakeRequest_all run (map fst rs) s)) = canPlay s"
  using assms
proof (induction rs arbitrary: s)
  case Nil
  then show ?case by (simp add: List.map_filter_simps lastError_def)
next
  case (Cons r rs)
  obtain k a where r: "r = (k, a)" by (cases r)
  have look: "map_of (requestQueue s) k = Some a" using Cons.prems(2) r by simp
  let ?s1 = "fst (safelyMakeRequest_call run k s)"
  have other: "\<forall>r' \<in> set rs. map_of (requestQueue ?s1) (fst r') = Some (snd r')"
  proof
    fix r' assume in_rs: "r' \<in> set rs"
    with Cons.prems(1) r have "fst r' \<noteq> k" by force
    then have "map_of (requestQueue ?s1) (fst r') = map_of (requestQueue s) (fst r')"
      by (rule call_lookup_other)
    with Cons.prems(2) in_rs show "map_of (requestQueue ?s1) (fst r') = Some (snd r')" by simp
  qed
  have d: "distinct (map fst rs)" using Cons.prems(1) by simp
  note ih = Cons.IH[OF d other]
  have unfold: "safelyMakeRequest_all run (map fst (r # rs)) s =
      (fst (safelyMakeRequest_all run (map fst rs) ?s1),
       (case snd (safelyMakeRequest_call run k s) of None \<Rightarrow> snd (safelyMakeRequest_all run (map fst rs) ?s1)
          | Some p \<Rightarrow> p # snd (safelyMakeRequest_all run (map fst rs) ?s1)))"
  proof -
    obtain t b where c: "safelyMakeRequest_call run k s = (t, b)"
      by (cases "safelyMakeRequest_call run k s")
    obtain t' bs where c': "safelyMakeRequest_all run (map fst rs) t = (t', bs)"
      by (cases "safelyMakeRequest_all run (map fst rs) t")
    show ?thesis by (simp add: r c c' split: option.splits)
  qed
  show ?case
    unfolding unfold using ih call_effect[OF look, of run]
    by (simp add: r lastError_append List.map_filter_simps
        del: callEvents.simps suspension.simps split: option.splits)
qed

lemma lookup_self:
  "distinct (map fst q) \<Longrightarrow> \<forall>r \<in> set q. map_of q (fst r) = Some (snd r)"
  by (auto simp: map_of_is_SomeI)

lemma flush_effect:
  assumes "distinct (map fst (requestQueue s))"
  shows "trace (flushRequestQueue run order s)
           = trace s @ flushEvents run order (requestQueue s) @ [FlushResolved (pendingRequestQueueFlush s)]"
    and "context_error (flushRequestQueue run order s)
           = lastError (flushEvents run order (requestQueue s) :: ('k, 'a, 'e) event list) (context_error (s :: ('k, 'a, 'e) provider))"
    and "requestQueue (flushRequestQueue run order s) = []"
    and "resolved (flushRequestQueue run order s) = insert (pendingRequestQueueFlush s) (resolved s)"
    and "pendingRequestQueueFlush (flushRequestQueue run order s) = pendingRequestQueueFlush s"
    and "canPlay (flushRequestQueue run order s) = canPlay s"
proof -
  note a = all_effect[OF assms lookup_self[OF assms], of run]
  obtain s1 susp where c: "safelyMakeRequest_all run (map fst (requestQueue s)) s = (s1, susp)"
    by (cases "safelyMakeRequest_all run (map fst (requestQueue s)) s")
  from a c have s1: "trace s1 = trace s @ concat (map (callEvents run) (requestQueue s))"
    "susp = List.map_filter (suspension run) (requestQueue s)"
    "context_error s1 = lastError (concat (map (callEvents run) (requestQueue s)) :: ('k, 'a, 'e) event list) (context_error s)"
    "pendingRequestQueueFlush s1 = pendingRequestQueueFlush s"
    "resolved s1 = resolved s" "canPlay s1 = canPlay s"
    by simp_all
  show "trace (flushRequestQueue run order s)
           = trace s @ flushEvents run order (requestQueue s) @ [FlushResolved (pendingRequestQueueFlush s)]"
    by (simp add: flushRequestQueue_def Let_def c resolveFlush_def resume_all_effect s1 flushEvents_def)
  show "context_error (flushRequestQueue run order s)
           = lastError (flushEvents run order (requestQueue s) :: ('k, 'a, 'e) event list) (context_error s)"
    by (simp add: flushRequestQueue_def Let_def c resolveFlush_def resume_all_effect s1 flushEvents_def lastError_append)
  show "requestQueue (flushRequestQueue run order s) = []"
    by (simp add: flushRequestQueue_def Let_def c resolveFlush_def)
  show "resolved (flushRequestQueue run order s) = insert (pendingRequestQueueFlush s) (resolved s)"
    by (simp add: flushRequestQueue_def Let_def c resolveFlush_def resume_all_effect s1)
  show "pendingRequestQueueFlush (flushRequestQueue run order s) = pendingRequestQueueFlush s"
    by (simp add: flushRequestQueue_def Let_def c resolveFlush_def resume_all_effect s1)
  show "canPlay (flushRequestQueue run order s) = canPlay s"
    by (simp add: flushRequestQueue_def Let_def c resolveFlush_def resume_all_effect s1)
qed

lemma update_fresh: "k \<notin> fst ` set q \<Longrightarrow> AList.update k v q = q @ [(k, v)]"
  by (induction q) auto

lemma updates_fresh:
  "distinct (map fst (q @ rs)) \<Longrightarrow>
   foldl (\<lambda>q p. AList.update (fst p) (snd p) q) q rs = q @ rs"
proof (induction rs arbitrary: q)
  case Nil
  then show ?case by simp
next
  case (Cons r rs)
  have fresh: "fst r \<notin> fst ` set q" using Cons.prems by auto
  have "distinct (map fst ((q @ [r]) @ rs))" using Cons.prems by simp
  from Cons.IH[OF this] show ?case by (simp add: update_fresh[OF fresh])
qed

lemma set_map_filter:
  "set (List.map_filter f xs) = {y. \<exists>x \<in> set xs. f x = Some y}"
  by (force simp: List.map_filter_def image_iff)

lemma invocations_callEvents: "invocations (concat (map (callEvents run) q)) = q"
  by (induction q) (auto simp: invocations_append split: outcome.splits)

lemma invocations_resumeEvents: "invocations (concat (map resumeEvents ps)) = []"
  by (induction ps) (auto simp: invocations_append split: option.splits)

lemma invocations_flushEvents: "invocations (flushEvents run order q) = q"
  by (simp add: flushEvents_def invocations_append invocations_callEvents invocations_resumeEvents)

lemma Invoke_in_flushEvents: "r \<in> set q \<Longrightarrow> Invoke (fst r) (snd r) \<in> set (flushEvents run order q)"
  by (cases r) (force simp: flushEvents_def)

lemma Awaited_in_flushEvents:
  assumes "r \<in> set q" and "\<forall>e. run (snd r) \<noteq> Throws e"
    and "\<And>xs. mset (order xs) = mset xs"
  shows "Awaited (fst r) \<in> set (flushEvents run order q)"
proof -
  have set_order: "set (order (List.map_filter (suspension run) q))
      = set (List.map_filter (suspension run) q)"
    using assms(3) by (rule mset_eq_setD)
  obtain k a where r: "r = (k, a)" by (cases r)
  from assms(2) r obtain p where p: "suspension run r = Some p" "fst p = k"
    by (cases "run a") auto
  then have "p \<in> set (order (List.map_filter (suspension run) q))"
    unfolding set_order using assms(1) by (force simp: set_map_filter)
  moreover have "Awaited k \<in> set (resumeEvents p)" using p(2) by (cases p) simp
  ultimately show ?thesis by (auto simp: flushEvents_def r)
qed

lemma callEvents_error:
  "ErrorEvent e \<in> set (callEvents run r) \<Longrightarrow> failure (run (snd r)) = Some e"
  by (cases r; cases "run (snd r)") (auto simp: failure_def)

lemma resumeEvents_error:
  "suspension run (r :: 'k \<times> 'a) = Some p \<Longrightarrow>
   ErrorEvent e \<in> set (resumeEvents p :: ('k, 'a, 'e) event list) \<Longrightarrow>
   failure (run (snd r)) = Some e"
  by (cases r; cases p; cases "run (snd r)") (auto simp: failure_def split: option.splits)

lemma ErrorEvent_in_flushEvents:
  assumes "\<And>xs. mset (order xs) = mset xs"
  shows "ErrorEvent e \<in> set (flushEvents run order (q :: ('k \<times> 'a) list) :: ('k, 'a, 'e) event list)
     \<longleftrightarrow> (\<exists>r \<in> set q. failure (run (snd r)) = Some e)"
proof
  have set_order: "set (order (List.map_filter (suspension run) q))
      = set (List.map_filter (suspension run) q)"
    using assms by (rule mset_eq_setD)
  assume "ErrorEvent e \<in> set (flushEvents run order q)"
  then consider r where "r \<in> set q" "ErrorEvent e \<in> set (callEvents run r)"
    | r p where "r \<in> set q" "suspension run r = Some p"
        "ErrorEvent e \<in> set (resumeEvents p :: ('k, 'a, 'e) event list)"
    by (auto simp: flushEvents_def set_map_filter set_order)
  then show "\<exists>r \<in> set q. failure (run (snd r)) = Some e"
  proof cases
    case 1
    from callEvents_error[OF 1(2)] 1(1) show ?thesis by (rule_tac x = r in bexI)
  next
    case 2
    from resumeEvents_error[OF 2(2,3)] 2(1) show ?thesis by (rule_tac x = r in bexI)
  qed
next
  have set_order: "set (order (List.map_filter (suspension run) q))
      = set (List.map_filter (suspension run) q)"
    using assms by (rule mset_eq_setD)
  assume "\<exists>r \<in> set q. failure (run (snd r)) = Some e"
  then obtain k a where r: "(k, a) \<in> set q" "failure (run a) = Some e" by auto
  from r(2) consider "run a = Throws e" | "run a = Rejects e"
    by (cases "run a") (auto simp: failure_def)
  then show "ErrorEvent e \<in> set (flushEvents run order q)"
  proof cases
    case 1
    then have "ErrorEvent e \<in> set (callEvents run (k, a))" by simp
    with r(1) have "ErrorEvent e \<in> set (concat (map (callEvents run) q))"
      unfolding set_concat set_map by (rule_tac a = "callEvents run (k, a)" in UN_I) (rule imageI)
    then show ?thesis by (simp add: flushEvents_def)
  next
    case 2
    then have "suspension run (k, a) = Some (k, Some e)" by simp
    then have "(k, Some e) \<in> set (order (List.map_filter (suspension run) q))"
      unfolding set_order using r(1) by (force simp: set_map_filter)
    moreover have "ErrorEvent e \<in> set (resumeEvents (k, Some e) :: ('k, 'a, 'e) event list)" by simp
    ultimately have "ErrorEvent e
        \<in> set (concat (map resumeEvents (order (List.map_filter (suspension run) q)))
        :: ('k, 'a, 'e) event list)"
      unfolding set_concat set_map by (rule_tac a = "resumeEvents (k, Some e)" in UN_I) (rule imageI)
    then show ?thesis by (simp add: flushEvents_def)
  qed
qed

lemma lastError_snoc:
  "lastError (es @ [ev]) b = (case ev of ErrorEvent e \<Rightarrow> Some e | _ \<Rightarrow> lastError es b)"
  by (cases ev) (simp_all add: lastError_def)

lemma lastError_some:
  "\<exists>e. ErrorEvent e \<in> set es \<Longrightarrow> \<exists>e. lastError es b = Some e \<and> ErrorEvent e \<in> set es"
proof (induction es rule: rev_induct)
  case Nil
  then show ?case by simp
next
  case (snoc ev es)
  show ?case
  proof (cases ev)
    case (ErrorEvent e)
    then show ?thesis by (simp add: lastError_snoc)
  next
    case (Invoke k a)
    with snoc show ?thesis by (auto simp: lastError_snoc)
  next
    case (Awaited k)
    with snoc show ?thesis by (auto simp: lastError_snoc)
  next
    case RequestUpdate
    with snoc show ?thesis by (auto simp: lastError_snoc)
  next
    case (FlushResolved d)
    with snoc show ?thesis by (auto simp: lastError_snoc)
  qed
qed

text \<open>
  What holds of the order of a flush. Requests made under pairwise distinct keys
  \<open>rs\<close>, in that order, on a provider that is not ready and whose queue is empty, are
  called by a \<^verbatim>\<open>flushRequestQueue\<close> that follows them directly in exactly the order
  in which they were made, whatever the keys are. The events of the flush are the
  calls, then the resumptions after each \<^verbatim>\<open>await\<close>, in whatever order the promises
  settle, and only then the resolution of the pending deferred, the last statement of
  the flush: every action has been called, and every action that did not throw has
  been awaited, before that. The queue is empty afterwards.
\<close>

lemma flush_order_of_fresh_requests:
  assumes "\<not> canPlay s" and "requestQueue s = []" and "distinct (map fst rs)"
    and "\<And>xs. mset (order xs) = mset xs"
  shows "invocations (trace (flushRequestQueue run order (makeRequests run rs s)))
           = invocations (trace s) @ rs
       \<and> trace (flushRequestQueue run order (makeRequests run rs s))
           = trace s @ flushEvents run order rs @ [FlushResolved (pendingRequestQueueFlush s)]
       \<and> (\<forall>r \<in> set rs. Invoke (fst r) (snd r) \<in> set (flushEvents run order rs)
             \<and> ((\<exists>e. run (snd r) = Throws e) \<or> Awaited (fst r) \<in> set (flushEvents run order rs)))
       \<and> requestQueue (flushRequestQueue run order (makeRequests run rs s)) = []"
proof -
  let ?s1 = "makeRequests run rs s"
  have s1: "?s1 = s\<lparr> requestQueue := rs \<rparr>"
    using makeRequests_queuing[OF assms(1), of run rs] updates_fresh[of "[]" rs] assms(2,3)
    by simp
  have d: "distinct (map fst (requestQueue ?s1))" using assms(3) by (simp add: s1)
  have tr: "trace (flushRequestQueue run order ?s1)
      = trace s @ flushEvents run order rs @ [FlushResolved (pendingRequestQueueFlush s)]"
    using flush_effect(1)[OF d, of run order] by (simp add: s1)
  have inv: "invocations (trace (flushRequestQueue run order ?s1)) = invocations (trace s) @ rs"
    by (simp add: tr invocations_append invocations_flushEvents)
  have ev: "\<forall>r \<in> set rs. Invoke (fst r) (snd r) \<in> set (flushEvents run order rs)
             \<and> ((\<exists>e. run (snd r) = Throws e) \<or> Awaited (fst r) \<in> set (flushEvents run order rs))"
  proof
    fix r assume r: "r \<in> set rs"
    have "Invoke (fst r) (snd r) \<in> set (flushEvents run order rs)"
      using r by (rule Invoke_in_flushEvents)
    moreover have "(\<exists>e. run (snd r) = Throws e) \<or> Awaited (fst r) \<in> set (flushEvents run order rs)"
    proof (cases "\<exists>e. run (snd r) = Throws e")
      case True
      then show ?thesis by simp
    next
      case False
      then have "\<forall>e. run (snd r) \<noteq> Throws e" by simp
      with r assms(4) have "Awaited (fst r) \<in> set (flushEvents run order rs)"
        by (intro Awaited_in_flushEvents)
      then show ?thesis by simp
    qed
    ultimately show "Invoke (fst r) (snd r) \<in> set (flushEvents run order rs)
        \<and> ((\<exists>e. run (snd r) = Throws e) \<or> Awaited (fst r) \<in> set (flushEvents run order rs))"
      by simp
  qed
  have emp: "requestQueue (flushRequestQueue run order ?s1) = []" by (rule flush_effect(3)[OF d])
  from inv tr ev emp show ?thesis by blast
qed

text \<open>
  Claim C3 (flush ordering), evaluated where the source departs from it. The provider
  is ready and the user enters fullscreen: the action is called at once, its promise is
  pending, and the call of \<^verbatim>\<open>safelyMakeRequest\<close> is suspended on it. The source changes,
  so \<^verbatim>\<open>canPlay\<close> is false again, and three requests are made under the distinct
  keys \<^verbatim>\<open>'volume'\<close>, \<^verbatim>\<open>'fullscreen'\<close> and \<^verbatim>\<open>'muted'\<close>, in that order: the queue
  holds the three of them, in that order. Now the first promise settles and the
  suspended call resumes: its \<^verbatim>\<open>requestQueue.delete(requestKey)\<close> removes the request
  queued under \<^verbatim>\<open>'fullscreen'\<close>. The provider becomes ready and flushes: the actions
  queued under \<^verbatim>\<open>'volume'\<close> and \<^verbatim>\<open>'muted'\<close> are called, the one queued under
  \<^verbatim>\<open>'fullscreen'\<close> never is, and the queue is empty.
\<close>

theorem flush_misses_request_deleted_by_earlier_call:
  "requestQueue
       (performAll (\<lambda>a. Resolves) (\<lambda>calls. calls)
          [SetCanPlay True, MakeRequest ''fullscreen'' ''enter'', SetCanPlay False,
           MakeRequest ''volume'' ''setVolume'', MakeRequest ''fullscreen'' ''exit'',
           MakeRequest ''muted'' ''setMuted'']
          (newProvider :: (string, string, string) provider))
     = [(''volume'', ''setVolume''), (''fullscreen'', ''exit''), (''muted'', ''setMuted'')]
   \<and> requestQueue
       (performAll (\<lambda>a. Resolves) (\<lambda>calls. calls)
          [SetCanPlay True, MakeRequest ''fullscreen'' ''enter'', SetCanPlay False,
           MakeRequest ''volume'' ''setVolume'', MakeRequest ''fullscreen'' ''exit'',
           MakeRequest ''muted'' ''setMuted'', Resume 0]
          (newProvider :: (string, string, string) provider))
     = [(''volume'', ''setVolume''), (''muted'', ''setMuted'')]
   \<and> invocations (trace
       (performAll (\<lambda>a. Resolves) (\<lambda>calls. calls)
          [SetCanPlay True, MakeRequest ''fullscreen'' ''enter'', SetCanPlay False,
           MakeRequest ''volume'' ''setVolume'', MakeRequest ''fullscreen'' ''exit'',
           MakeRequest ''muted'' ''setMuted'', Resume 0, SetCanPlay True, FlushRequestQueue]
          (newProvider :: (string, string, string) provider)))
     = [(''fullscreen'', ''enter''), (''volume'', ''setVolume''), (''muted'', ''setMuted'')]
   \<and> requestQueue
       (performAll (\<lambda>a. Resolves) (\<lambda>calls. calls)
          [SetCanPlay True, MakeRequest ''fullscreen'' ''enter'', SetCanPlay False,
           MakeRequest ''volume'' ''setVolume'', MakeRequest ''fullscreen'' ''exit'',
           MakeRequest ''muted'' ''setMuted'', Resume 0, SetCanPlay True, FlushRequestQueue]
          (newProvider :: (string, string, string) provider))
     = []"
  by (simp add: performAll_def newProvider_def makeRequest_def safelyMakeRequest_call_def
      resumeSuspended_def safelyMakeRequest_resume_def finishRequest_def
      flushRequestQueue_def resolveFlush_def)

text \<open>
  Claim C5 (error containment during a flush). When an action \<open>a\<close> of the queue
  throws \<open>e\<close> or rejects with \<open>e\<close>, the flush still calls every action of the
  queue, in order, in whatever order \<open>order\<close> the awaited promises settle; it runs to its last statement, the resolution of the deferred, so
  nothing is thrown at its caller; a \<^verbatim>\<open>VdsErrorEvent\<close> carrying \<open>e\<close> is dispatched;
  \<^verbatim>\<open>context.error\<close> holds the error of a failed action of the batch afterwards, and
  holds \<open>e\<close> when \<open>a\<close> is the only action that failed; the queue is empty.
\<close>

theorem flush_contains_errors:
  assumes "distinct (map fst (requestQueue s))"
    and "(k, a) \<in> set (requestQueue s)" and "failure (run a) = Some e"
    and "\<And>xs. mset (order xs) = mset xs"
  shows "invocations (trace (flushRequestQueue run order s)) = invocations (trace s) @ requestQueue s
       \<and> trace (flushRequestQueue run order s)
           = trace s @ flushEvents run order (requestQueue s) @ [FlushResolved (pendingRequestQueueFlush s)]
       \<and> ErrorEvent e \<in> set (flushEvents run order (requestQueue s))
       \<and> (\<exists>e'. context_error (flushRequestQueue run order s) = Some e'
             \<and> (\<exists>r \<in> set (requestQueue s). failure (run (snd r)) = Some e'))
       \<and> ((\<forall>r \<in> set (requestQueue s). r \<noteq> (k, a) \<longrightarrow> failure (run (snd r)) = None)
             \<longrightarrow> context_error (flushRequestQueue run order s) = Some e)
       \<and> requestQueue (flushRequestQueue run order s) = []"
proof -
  let ?es = "flushEvents run order (requestQueue s)"
  have tr: "trace (flushRequestQueue run order s)
      = trace s @ ?es @ [FlushResolved (pendingRequestQueueFlush s)]"
    by (rule flush_effect(1)[OF assms(1)])
  have inv: "invocations (trace (flushRequestQueue run order s)) = invocations (trace s) @ requestQueue s"
    by (simp add: tr invocations_append invocations_flushEvents)
  have ee: "ErrorEvent e \<in> set ?es"
    using assms(2,3) by (force simp: ErrorEvent_in_flushEvents[OF assms(4)])
  then obtain e' where e': "lastError ?es (context_error s) = Some e'" "ErrorEvent e' \<in> set ?es"
    using lastError_some[of ?es "context_error s"] by blast
  have ce: "context_error (flushRequestQueue run order s) = Some e'"
    using flush_effect(2)[OF assms(1), of run order] e'(1) by simp
  from e'(2) have src: "\<exists>r \<in> set (requestQueue s). failure (run (snd r)) = Some e'"
    by (simp add: ErrorEvent_in_flushEvents[OF assms(4)])
  have sole: "(\<forall>r \<in> set (requestQueue s). r \<noteq> (k, a) \<longrightarrow> failure (run (snd r)) = None)
      \<longrightarrow> context_error (flushRequestQueue run order s) = Some e"
  proof
    assume only: "\<forall>r \<in> set (requestQueue s). r \<noteq> (k, a) \<longrightarrow> failure (run (snd r)) = None"
    from src obtain r where r: "r \<in> set (requestQueue s)" "failure (run (snd r)) = Some e'" by blast
    with only have "r = (k, a)" by force
    with r(2) assms(3) have "e' = e" by simp
    with ce show "context_error (flushRequestQueue run order s) = Some e" by simp
  qed
  have emp: "requestQueue (flushRequestQueue run order s) = []" by (rule flush_effect(3)[OF assms(1)])
  from inv tr ee ce src sole emp show ?thesis by blast
qed

theorem flush_contains_errors_witness:
  "distinct (map fst (requestQueue
      ((newProvider :: (string, string, string) provider)
         \<lparr> requestQueue := [(''paused'', ''play''), (''volume'', ''setVolume'')] \<rparr>)))
   \<and> (''paused'', ''play'') \<in> set (requestQueue
      ((newProvider :: (string, string, string) provider)
         \<lparr> requestQueue := [(''paused'', ''play''), (''volume'', ''setVolume'')] \<rparr>))
   \<and> failure ((\<lambda>a. if a = ''play'' then Rejects ''NotAllowedError'' else Returns) ''play'')
       = Some ''NotAllowedError''
   \<and> invocations (trace (flushRequestQueue
         (\<lambda>a. if a = ''play'' then Rejects ''NotAllowedError'' else Returns) rev
         ((newProvider :: (string, string, string) provider)
            \<lparr> requestQueue := [(''paused'', ''play''), (''volume'', ''setVolume'')] \<rparr>)))
       = [(''paused'', ''play''), (''volume'', ''setVolume'')]
   \<and> ErrorEvent ''NotAllowedError'' \<in> set (trace (flushRequestQueue
         (\<lambda>a. if a = ''play'' then Rejects ''NotAllowedError'' else Returns) rev
         ((newProvider :: (string, string, string) provider)
            \<lparr> requestQueue := [(''paused'', ''play''), (''volume'', ''setVolume'')] \<rparr>)))
   \<and> context_error (flushRequestQueue
         (\<lambda>a. if a = ''play'' then Rejects ''NotAllowedError'' else Returns) rev
         ((newProvider :: (string, string, string) provider)
            \<lparr> requestQueue := [(''paused'', ''play''), (''volume'', ''setVolume'')] \<rparr>))
       = Some ''NotAllowedError''"
  using flush_contains_errors [where
      s = "(newProvider :: (string, string, string) provider)
         \<lparr> requestQueue := [(''paused'', ''play''), (''volume'', ''setVolume'')] \<rparr>"
      and k = "''paused''" and a = "''play''"
      and run = "\<lambda>a. if a = ''play'' then Rejects ''NotAllowedError'' else Returns"
      and e = "''NotAllowedError''" and order = rev]
  by (simp add: newProvider_def failure_def flushEvents_def)

text \<open>
  What holds of \<^verbatim>\<open>waitForRequestQueueToFlush\<close>. A caller who finds the provider ready
  returns at once. A caller who finds it not ready, with a pending deferred that is
  not resolved yet, is held through any requests, any changes of \<^verbatim>\<open>canPlay\<close> and any
  resumptions of suspended calls, and is let go by the next \<^verbatim>\<open>flushRequestQueue()\<close>
  and by the next \<^verbatim>\<open>resetRequestQueue()\<close>.
\<close>

lemma call_deferred:
  "resolved (fst (safelyMakeRequest_call run k s)) = resolved s
   \<and> pendingRequestQueueFlush (fst (safelyMakeRequest_call run k s)) = pendingRequestQueueFlush s"
  by (simp add: safelyMakeRequest_call_def finishRequest_def catchError_def Let_def
      split: option.splits outcome.splits)

lemma all_deferred:
  "resolved (fst (safelyMakeRequest_all run ks s)) = resolved s
   \<and> pendingRequestQueueFlush (fst (safelyMakeRequest_all run ks s)) = pendingRequestQueueFlush s"
proof (induction ks arbitrary: s)
  case Nil
  then show ?case by simp
next
  case (Cons k ks)
  show ?case
    unfolding all_Cons_fst using Cons.IH[of "fst (safelyMakeRequest_call run k s)"] call_deferred[of run k s]
    by simp
qed

lemma makeRequest_deferred:
  "resolved (makeRequest run k a s) = resolved s
   \<and> pendingRequestQueueFlush (makeRequest run k a s) = pendingRequestQueueFlush s"
proof -
  let ?s1 = "s\<lparr> requestQueue := AList.update k a (requestQueue s) \<rparr>"
  obtain s2 susp where c: "safelyMakeRequest_call run k ?s1 = (s2, susp)"
    by (cases "safelyMakeRequest_call run k ?s1")
  have "resolved s2 = resolved s \<and> pendingRequestQueueFlush s2 = pendingRequestQueueFlush s"
    using call_deferred[of run k ?s1] c by simp
  then show ?thesis
    by (simp add: makeRequest_def Let_def c split: option.splits)
qed

lemma resumeSuspended_deferred:
  "resolved (resumeSuspended i s) = resolved s
   \<and> pendingRequestQueueFlush (resumeSuspended i s) = pendingRequestQueueFlush s"
  by (simp add: resumeSuspended_def resume_effect)

lemma flush_resolves:
  "pendingRequestQueueFlush s \<in> resolved (flushRequestQueue run order s)"
proof -
  obtain s1 susp where c: "safelyMakeRequest_all run (map fst (requestQueue s)) s = (s1, susp)"
    by (cases "safelyMakeRequest_all run (map fst (requestQueue s)) s")
  have "pendingRequestQueueFlush s1 = pendingRequestQueueFlush s"
    using all_deferred[of run "map fst (requestQueue s)" s] c by simp
  then show ?thesis
    by (simp add: flushRequestQueue_def Let_def c resolveFlush_def resume_all_effect)
qed

lemma reset_resolves: "pendingRequestQueueFlush s \<in> resolved (resetRequestQueue s)"
  by (simp add: resetRequestQueue_def Let_def resolveFlush_def)

lemma keeps_waiting_deferred:
  "\<forall>c \<in> set cs. keeps_waiting c \<Longrightarrow>
   resolved (performAll run order cs s) = resolved s
   \<and> pendingRequestQueueFlush (performAll run order cs s) = pendingRequestQueueFlush s"
  unfolding performAll_def
proof (induction cs arbitrary: s)
  case Nil
  then show ?case by simp
next
  case (Cons c cs)
  have "resolved (perform run order s c) = resolved s
      \<and> pendingRequestQueueFlush (perform run order s c) = pendingRequestQueueFlush s"
    using Cons.prems by (cases c) (simp_all add: makeRequest_deferred resumeSuspended_deferred)
  with Cons.IH[of "perform run order s c"] Cons.prems show ?case by simp
qed

lemma wait_released_by_flush_or_reset:
  assumes "\<not> canPlay s" and "pendingRequestQueueFlush s \<notin> resolved s"
    and "\<forall>c \<in> set cs. keeps_waiting c"
  shows "\<not> released (waitForRequestQueueToFlush s) (performAll run order cs s)
       \<and> released (waitForRequestQueueToFlush s) (flushRequestQueue run order (performAll run order cs s))
       \<and> released (waitForRequestQueueToFlush s) (resetRequestQueue (performAll run order cs s))"
  using assms(1,2) keeps_waiting_deferred[OF assms(3), of run order s]
    flush_resolves[of "performAll run order cs s" run order] reset_resolves[of "performAll run order cs s"]
  by (simp add: waitForRequestQueueToFlush_def)

lemma wait_when_ready: "canPlay s \<Longrightarrow> released (waitForRequestQueueToFlush s) s"
  by (simp add: waitForRequestQueueToFlush_def)

text \<open>
  Claim C4 (flush-wait release), evaluated where the source departs from it. The
  provider becomes ready and flushes its queue, \<^verbatim>\<open>canPlay\<close> is put back to false (as
  \<^verbatim>\<open>softResetMediaContext\<close> does when the source changes), and a request is made,
  which is queued. \<^verbatim>\<open>waitForRequestQueueToFlush()\<close> now awaits deferred number 0,
  which the earlier flush resolved and did not replace: the caller is let go although
  no flush and no reset followed the call, the request is still in the queue, and no
  action has been called.
\<close>

theorem waitForRequestQueueToFlush_after_flush:
  "waitForRequestQueueToFlush
       (performAll (\<lambda>a. Returns) (\<lambda>calls. calls)
          [SetCanPlay True, FlushRequestQueue, SetCanPlay False, MakeRequest ''volume'' ''setVolume'']
          (newProvider :: (string, string, string) provider))
     = AwaitsDeferred 0
   \<and> released (AwaitsDeferred 0)
       (performAll (\<lambda>a. Returns) (\<lambda>calls. calls)
          [SetCanPlay True, FlushRequestQueue, SetCanPlay False, MakeRequest ''volume'' ''setVolume'']
          (newProvider :: (string, string, string) provider))
   \<and> requestQueue
       (performAll (\<lambda>a. Returns) (\<lambda>calls. calls)
          [SetCanPlay True, FlushRequestQueue, SetCanPlay False, MakeRequest ''volume'' ''setVolume'']
          (newProvider :: (string, string, string) provider))
     = [(''volume'', ''setVolume'')]
   \<and> invocations (trace
       (performAll (\<lambda>a. Returns) (\<lambda>calls. calls)
          [SetCanPlay True, FlushRequestQueue, SetCanPlay False, MakeRequest ''volume'' ''setVolume'']
          (newProvider :: (string, string, string) provider)))
     = []"
  by (simp add: performAll_def newProvider_def flushRequestQueue_def resolveFlush_def
      makeRequest_def waitForRequestQueueToFlush_def)

section \<open>Properties of the request queue class\<close>

lemma pass_through_step:
  assumes "\<not> destroyed q" and "serveImmediately q" and "pending q = []" and "\<not> stop_reset_or_destroy c"
  shows "\<not> destroyed (apply_call q c) \<and> serveImmediately (apply_call q c) \<and> pending (apply_call q c) = []"
  using assms
  by (cases c) (simp_all add: queue_def serve_def start_def waitForFlush_def)

lemma pass_through_steps:
  assumes "\<not> destroyed q" and "serveImmediately q" and "pending q = []"
    and "\<forall>c \<in> set cs. \<not> stop_reset_or_destroy c"
  shows "\<not> destroyed (apply_calls cs q) \<and> serveImmediately (apply_calls cs q)
       \<and> pending (apply_calls cs q) = []"
  using assms unfolding apply_calls_def
proof (induction cs arbitrary: q)
  case Nil
  then show ?case by simp
next
  case (Cons c cs)
  have "\<not> stop_reset_or_destroy c" using Cons.prems(4) by simp
  from pass_through_step[OF Cons.prems(1-3) this] Cons.prems(4) show ?case
    by (simp add: Cons.IH)
qed

text \<open>
  Claim C2 (pass-through mode), as amended. For a queue that has not been destroyed:
  after \<^verbatim>\<open>start()\<close>, and through any calls \<open>cs\<close> among which there is no \<^verbatim>\<open>stop()\<close>,
  no \<^verbatim>\<open>reset()\<close> and no \<^verbatim>\<open>destroy()\<close>, the size of the queue is 0, and
  \<^verbatim>\<open>queue(k, f)\<close> calls \<open>f\<close> at once and changes nothing else: \<open>f\<close> is not stored and
  the size is still 0. \<^verbatim>\<open>_handleMediaReady\<close> leaves the media request queue of the
  provider as \<^verbatim>\<open>start()\<close> does, so all this holds of the provider once it is ready.
\<close>

theorem pass_through_after_start:
  assumes "\<not> destroyed q" and "\<forall>c \<in> set cs. \<not> stop_reset_or_destroy c"
  shows "size_queue (apply_calls cs (start q)) = 0
       \<and> queue k f (apply_calls cs (start q))
           = (apply_calls cs (start q))\<lparr> served := served (apply_calls cs (start q)) @ [(k, f)] \<rparr>
       \<and> size_queue (queue k f (apply_calls cs (start q))) = 0
       \<and> mediaRequestQueue (handleMediaReady (p\<lparr> mediaRequestQueue := q \<rparr>)) = start q"
proof -
  have "\<not> destroyed (start q)" "serveImmediately (start q)" "pending (start q) = []"
    using assms(1) by (simp_all add: start_def)
  from pass_through_steps[OF this assms(2)] assms(1) show ?thesis
    by (simp add: size_queue_def queue_def handleMediaReady_def flush_def start_def)
qed

theorem pass_through_after_start_witness:
  "\<not> destroyed (newRequestQueue :: (string, string) request_queue)
   \<and> \<not> stop_reset_or_destroy (Queue ''a'' ''itemA'' :: (string, string) queue_call)
   \<and> \<not> stop_reset_or_destroy (WaitForFlush 0 :: (string, string) queue_call)
   \<and> \<not> stop_reset_or_destroy (Start :: (string, string) queue_call)
   \<and> \<not> stop_reset_or_destroy (Serve ''a'' :: (string, string) queue_call)
   \<and> size_queue (apply_calls [Queue ''a'' ''itemA'', WaitForFlush 0, Start, Serve ''a'']
        (start (queue ''v'' ''setVolume'' (newRequestQueue :: (string, string) request_queue)))) = 0
   \<and> served (queue ''b'' ''itemB'' (apply_calls [Queue ''a'' ''itemA'', WaitForFlush 0, Start, Serve ''a'']
        (start (queue ''v'' ''setVolume'' (newRequestQueue :: (string, string) request_queue)))))
     = [(''v'', ''setVolume''), (''a'', ''itemA''), (''b'', ''itemB'')]"
  using pass_through_after_start [of "queue ''v'' ''setVolume'' (newRequestQueue :: (string, string) request_queue)"
      "[Queue ''a'' ''itemA'', WaitForFlush 0, Start, Serve ''a'']" "''b''" "''itemB''"]
  by (simp add: newRequestQueue_def queue_def start_def apply_calls_def serve_def waitForFlush_def size_queue_def)

text \<open>
  Claim C2 as stated fails when the queue is destroyed in between: \<^verbatim>\<open>destroy()\<close> is
  neither \<^verbatim>\<open>stop()\<close> nor \<^verbatim>\<open>reset()\<close>, and after \<^verbatim>\<open>start()\<close> and \<^verbatim>\<open>destroy()\<close> the
  call \<^verbatim>\<open>queue('volume', setVolume)\<close> does not call the action.
\<close>

theorem queue_after_destroy_counterexample:
  "(Destroy :: (string, string) queue_call) \<noteq> Stop
   \<and> (Destroy :: (string, string) queue_call) \<noteq> Reset
   \<and> served (queue ''volume'' ''setVolume''
         (apply_calls [Destroy] (start (newRequestQueue :: (string, string) request_queue))))
       \<noteq> served (apply_calls [Destroy] (start (newRequestQueue :: (string, string) request_queue)))
           @ [(''volume'', ''setVolume'')]"
  by (simp add: newRequestQueue_def start_def destroy_def queue_def apply_calls_def)

section \<open>Properties of the media provider\<close>

lemma softReset_lookup:
  "distinct (map fst mc) \<Longrightarrow>
   foldl (\<lambda>c' p. if fst p \<in> S then c'(fst p \<mapsto> snd p) else c') c mc x
     = (if x \<in> S then (case map_of mc x of Some v \<Rightarrow> Some v | None \<Rightarrow> c x) else c x)"
proof (induction mc arbitrary: c)
  case Nil
  then show ?case by simp
next
  case (Cons p mc)
  have d: "distinct (map fst mc)" and fresh: "fst p \<notin> fst ` set mc" using Cons.prems by simp_all
  have none: "map_of mc (fst p) = None" using fresh by (simp add: map_of_eq_None_iff)
  let ?f = "\<lambda>c' p. if fst p \<in> S then c'(fst p \<mapsto> snd p) else c'"
  let ?c1 = "if fst p \<in> S then c(fst p \<mapsto> snd p) else c"
  have "foldl ?f c (p # mc) x = foldl ?f ?c1 mc x" by simp
  also have "\<dots> = (if x \<in> S then (case map_of mc x of Some v \<Rightarrow> Some v | None \<Rightarrow> ?c1 x) else ?c1 x)"
    by (rule Cons.IH[OF d])
  also have "\<dots> = (if x \<in> S then (case map_of (p # mc) x of Some v \<Rightarrow> Some v | None \<Rightarrow> c x) else c x)"
    using none by (cases p) (auto split: option.splits)
  finally show ?case .
qed

text \<open>
  Claim C6 (soft reset boundary). Whatever the context record \<open>c\<close> holds, the soft
  reset puts \<^verbatim>\<open>duration\<close> back to the initial value \<open>d\<close> that \<^verbatim>\<open>mediaContext\<close> declares
  for it (the source documents it as \<^verbatim>\<open>NaN\<close>), leaves \<^verbatim>\<open>volume\<close> as it was, leaves
  every property outside \<^verbatim>\<open>_getMediaPropsToResetWhenSrcChanges()\<close> as it was, and gives
  every declared property inside that set its initial value. The keys of the object
  \<^verbatim>\<open>mediaContext\<close> are distinct, as the keys of an object are. The statement is about the
  values stored in the record; a derived property is a function of stored ones.
\<close>

theorem soft_reset_frame:
  assumes "distinct (map fst mediaContext)" and "map_of mediaContext ''duration'' = Some d"
  shows "softResetMediaContext mediaContext c ''duration'' = Some d
       \<and> softResetMediaContext mediaContext c ''volume'' = c ''volume''
       \<and> (\<forall>p. p \<notin> getMediaPropsToResetWhenSrcChanges
             \<longrightarrow> softResetMediaContext mediaContext c p = c p)
       \<and> (\<forall>p v. p \<in> getMediaPropsToResetWhenSrcChanges \<longrightarrow> map_of mediaContext p = Some v
             \<longrightarrow> softResetMediaContext mediaContext c p = Some v)"
proof -
  have dur: "''duration'' \<in> getMediaPropsToResetWhenSrcChanges"
    and vol: "''volume'' \<notin> getMediaPropsToResetWhenSrcChanges"
    by (simp_all add: getMediaPropsToResetWhenSrcChanges_def)
  show ?thesis
    using dur vol assms(2)
    by (simp add: softResetMediaContext_def Let_def softReset_lookup[OF assms(1)])
qed

theorem soft_reset_frame_witness:
  "distinct (map fst [(''volume'', JNumber 1), (''duration'', JNaN), (''paused'', JBoolean True), (''muted'', JBoolean False)])
   \<and> map_of [(''volume'', JNumber 1), (''duration'', JNaN), (''paused'', JBoolean True), (''muted'', JBoolean False)]
        ''duration'' = Some JNaN
   \<and> softResetMediaContext
        [(''volume'', JNumber 1), (''duration'', JNaN), (''paused'', JBoolean True), (''muted'', JBoolean False)]
        [''volume'' \<mapsto> JNumber 0.5, ''duration'' \<mapsto> JNumber 200, ''paused'' \<mapsto> JBoolean False, ''muted'' \<mapsto> JBoolean True]
        ''duration'' = Some JNaN
   \<and> softResetMediaContext
        [(''volume'', JNumber 1), (''duration'', JNaN), (''paused'', JBoolean True), (''muted'', JBoolean False)]
        [''volume'' \<mapsto> JNumber 0.5, ''duration'' \<mapsto> JNumber 200, ''paused'' \<mapsto> JBoolean False, ''muted'' \<mapsto> JBoolean True]
        ''volume'' = Some (JNumber 0.5)"
  using soft_reset_frame [of
      "[(''volume'', JNumber 1), (''duration'', JNaN), (''paused'', JBoolean True), (''muted'', JBoolean False)]"
      "JNaN"
      "[''volume'' \<mapsto> JNumber 0.5, ''duration'' \<mapsto> JNumber 200, ''paused'' \<mapsto> JBoolean False, ''muted'' \<mapsto> JBoolean True]"]
  by simp

lemma apply_call_keeps_destroyed_empty:
  "destroyed q \<longrightarrow> pending q = [] \<Longrightarrow>
   destroyed (apply_call q c) \<longrightarrow> pending (apply_call q c) = []"
  by (cases c)
     (auto simp: queue_def serve_def start_def stop_def reset_def destroy_def waitForFlush_def
        split: option.splits)







section \<open>Properties of the stores\<close>

lemma calls_of_append: "calls_of cb (xs @ ys) = calls_of cb xs @ calls_of cb ys"
  by (simp add: calls_of_def)

lemma calls_of_notify:
  "calls_of cb (map (\<lambda>c. (c, v)) subs) = map (\<lambda>c. v) (filter (\<lambda>c. c = cb) subs)"
  by (induction subs) (simp_all add: calls_of_def)

lemma set_store_subscribers: "subscribers (set_store v s) = subscribers s"
  by (simp add: set_store_def)

lemma set_all_subscribed:
  "filter (\<lambda>c. c = cb) (subscribers s) = [cb] \<Longrightarrow>
   calls_of cb (notified (set_all vs s)) = calls_of cb (notified s) @ changes (current s) vs"
proof (induction vs arbitrary: s)
  case Nil
  then show ?case by (simp add: set_all_def)
next
  case (Cons v vs)
  have step: "set_all (v # vs) s = set_all vs (set_store v s)" by (simp add: set_all_def)
  have sub: "filter (\<lambda>c. c = cb) (subscribers (set_store v s)) = [cb]"
    using Cons.prems by (simp add: set_store_subscribers)
  show ?case
    unfolding step Cons.IH[OF sub] using Cons.prems
    by (simp add: set_store_def calls_of_append calls_of_notify)
qed

lemma set_all_unsubscribed:
  "cb \<notin> set (subscribers s) \<Longrightarrow> calls_of cb (notified (set_all vs s)) = calls_of cb (notified s)"
proof (induction vs arbitrary: s)
  case Nil
  then show ?case by (simp add: set_all_def)
next
  case (Cons v vs)
  have step: "set_all (v # vs) s = set_all vs (set_store v s)" by (simp add: set_all_def)
  have sub: "cb \<notin> set (subscribers (set_store v s))"
    using Cons.prems by (simp add: set_store_subscribers)
  have none: "filter (\<lambda>c. c = cb) (subscribers s) = []"
    using Cons.prems by (auto simp: filter_empty_conv)
  show ?case
    unfolding step Cons.IH[OF sub]
    by (simp add: set_store_def calls_of_append calls_of_notify none)
qed

lemma set_all_subscribers: "subscribers (set_all vs s) = subscribers s"
  by (induction vs arbitrary: s) (simp_all add: set_all_def set_store_subscribers)

text \<open>
  Claim C8 (subscribe replay). For a listener \<open>cb\<close> not yet subscribed to the field:
  \<^verbatim>\<open>subscribe(cb)\<close> makes exactly one call, of \<open>cb\<close>, with the current value, whether or
  not the value ever changed; through the writes \<open>vs\<close> that follow, \<open>cb\<close> is called
  once more for each write that changes the value, with the new value; after the
  disposer has been called, the writes \<open>ws\<close> do not reach \<open>cb\<close>. A host that
  connects gets the same first call through \<^verbatim>\<open>hostedStoreSubscription\<close>, and its
  disconnection is the call of the disposer.
\<close>

theorem subscribe_replay:
  assumes "cb \<notin> set (subscribers s)"
  shows "notified (subscribe cb s) = notified s @ [(cb, current s)]
       \<and> calls_of cb (notified (set_all vs (subscribe cb s)))
           = calls_of cb (notified s) @ current s # changes (current s) vs
       \<and> calls_of cb (notified (set_all ws (unsubscribe cb (set_all vs (subscribe cb s)))))
           = calls_of cb (notified (set_all vs (subscribe cb s)))
       \<and> notified (hostedStore (hostConnected cb (hostedStoreSubscription s)))
           = notified s @ [(cb, current s)]
       \<and> hostedStore (hostDisconnected (hostConnected cb (hostedStoreSubscription s)))
           = unsubscribe cb (subscribe cb s)"
proof -
  have none: "filter (\<lambda>c. c = cb) (subscribers s) = []"
    using assms by (auto simp: filter_empty_conv)
  have one: "filter (\<lambda>c. c = cb) (subscribers (subscribe cb s)) = [cb]"
    by (simp add: subscribe_def none)
  have a: "notified (subscribe cb s) = notified s @ [(cb, current s)]"
    by (simp add: subscribe_def)
  have b: "calls_of cb (notified (set_all vs (subscribe cb s)))
      = calls_of cb (notified s) @ current s # changes (current s) vs"
    unfolding set_all_subscribed[OF one] by (simp add: subscribe_def calls_of_def)
  have "subscribers (unsubscribe cb (set_all vs (subscribe cb s))) = subscribers s"
    using assms by (simp add: unsubscribe_def set_all_subscribers subscribe_def remove1_append)
  then have "cb \<notin> set (subscribers (unsubscribe cb (set_all vs (subscribe cb s))))"
    using assms by simp
  from set_all_unsubscribed[OF this]
  have c: "calls_of cb (notified (set_all ws (unsubscribe cb (set_all vs (subscribe cb s)))))
      = calls_of cb (notified (set_all vs (subscribe cb s)))"
    by (simp add: unsubscribe_def)
  have d: "notified (hostedStore (hostConnected cb (hostedStoreSubscription s)))
      = notified s @ [(cb, current s)]"
    by (simp add: hostConnected_def hostedStoreSubscription_def subscribe_def)
  have e: "hostedStore (hostDisconnected (hostConnected cb (hostedStoreSubscription s)))
      = unsubscribe cb (subscribe cb s)"
    by (simp add: hostConnected_def hostDisconnected_def hostedStoreSubscription_def)
  from a b c d e show ?thesis by blast
qed

theorem subscribe_replay_witness:
  "(7::nat) \<notin> set (subscribers (writable ''0''))
   \<and> notified (subscribe 7 (writable ''0'')) = [(7, ''0'')]
   \<and> calls_of 7 (notified (set_all [''3''] (unsubscribe 7 (set_all [''1'', ''1'', ''2''] (subscribe 7 (writable ''0''))))))
       = [''0'', ''1'', ''2'']"
  using subscribe_replay [of 7 "writable ''0''" "[''1'', ''1'', ''2'']" "[''3'']"]
  by (simp add: writable_def calls_of_def)

text \<open>
  Claim C9 (no-op write). \<^verbatim>\<open>set(v)\<close> on a field whose current value is \<open>v\<close> leaves
  the field as it is and notifies nobody. The second of two consecutive \<^verbatim>\<open>set(v)\<close>
  never notifies. When the first one changes the value, the two together make exactly
  one call per subscription, in subscription order, with \<open>v\<close>.
\<close>

theorem noop_write:
  "(current s = v \<longrightarrow> set_store v s = s)
   \<and> notified (set_store v (set_store v s)) = notified (set_store v s)
   \<and> (v \<noteq> current s \<longrightarrow>
        notified (set_store v (set_store v s)) = notified s @ map (\<lambda>cb. (cb, v)) (subscribers s))"
  by (simp add: set_store_def)

theorem noop_write_witness:
  "(50::nat) \<noteq> current (subscribe 2 (subscribe 1 (writable 100)))
   \<and> notified (set_store 50 (set_store 50 (subscribe 2 (subscribe 1 (writable (100::nat))))))
       = notified (subscribe 2 (subscribe 1 (writable 100))) @ [(1, 50), (2, 50)]
   \<and> current (set_store 50 (subscribe 1 (writable (100::nat)))) = 50
   \<and> set_store 50 (set_store 50 (subscribe 1 (writable (100::nat)))) = set_store 50 (subscribe 1 (writable 100))"
  using noop_write [of "subscribe 2 (subscribe 1 (writable (100::nat)))" 50]
    noop_write [of "set_store 50 (subscribe 1 (writable (100::nat)))" 50]
  by (simp add: writable_def subscribe_def set_store_def)

section \<open>Properties of the HLS support check\<close>

text \<open>
  Claim C10. For every type \<open>t\<close>, HLS type or not, and whether or not HLS is
  supported, \<^verbatim>\<open>HlsElement.canPlayType(t)\<close> is \<^verbatim>\<open>super.canPlayType(t)\<close>: the value of the
  conditional expression in the HLS branch is not returned.
\<close>

theorem canPlayType_is_super:
  "canPlayType superCanPlayType isHlsSupported t = superCanPlayType t"
  by (simp add: canPlayType_def expression_statement_def)

end
